theory Spec2Isabelle
  imports Main
begin

section \<open>Data model of decision/models.py\<close>

text \<open>
  The tables are lists of rows, in insertion order (the order of the primary key).
  Users, polls, choices and categories are referred to by their primary keys, as the
  foreign-key columns do. The fields of the row records carry the names of the SQL
  columns that \<open>propagate_vote\<close> reads and writes.
\<close>

record poll =
  poll_pk :: nat
  category :: "nat option"
  is_open :: bool

record choice =
  choice_pk :: nat
  choice_poll :: nat

text \<open>
  A row of \<open>decision_vote\<close>. The \<open>id\<close> column is left out: the code reads it only in
  \<open>COUNT(v.id)\<close>, which counts every row, and \<open>vote.save()\<close> writes through it to the
  one row that \<open>self.votes.get(user=user)\<close> has just returned.
\<close>

record vote =
  user_id :: nat
  poll_id :: nat
  choice_id :: nat
  delegate_id :: "nat option"

record delegation =
  d_id :: nat
  follower_id :: nat
  leader_id :: nat

text \<open>A row of the many-to-many table \<open>decision_delegation_categories\<close>.\<close>

record delegation_category =
  delegation_id :: nat
  category_id :: nat

record db =
  decision_vote :: "vote list"
  decision_delegation :: "delegation list"
  decision_delegation_categories :: "delegation_category list"

text \<open>
  The exceptions that leave the code. \<open>Exception\<close> is the built-in class that
  \<open>set_vote\<close> raises at both of its \<open>raise Exception()\<close> statements;
  \<open>DoesNotExist\<close> and \<open>MultipleObjectsReturned\<close> are raised by \<open>get\<close>,
  \<open>IntegrityError\<close> by a write that breaks a \<open>unique_together\<close> constraint.
\<close>

datatype error =
    PollClosed
  | InvalidChoice
  | Exception
  | CantDelegateToSelf
  | DoesNotExist
  | MultipleObjectsReturned
  | IntegrityError

text \<open>The \<open>choice\<close> argument of \<open>set_vote\<close> is any Python object.\<close>

datatype choice_arg = ChoiceObj choice | OtherObj

text \<open>A row of the recursive table \<open>dlg\<close>.\<close>

record dlg =
  dlg_user_id :: nat
  dlg_poll_id :: nat
  dlg_choice_id :: nat
  dlg_delegate_id :: "nat option"


section \<open>Queries\<close>

text \<open>\<open>QuerySet.get\<close>: the single row of a result, or one of its two exceptions.\<close>

fun get_row :: "'a list \<Rightarrow> error + 'a" where
  "get_row [] = Inl DoesNotExist"
| "get_row [x] = Inr x"
| "get_row (x # y # zs) = Inl MultipleObjectsReturned"

text \<open>\<open>self.votes.get(user=user)\<close>\<close>

definition votes_get :: "db \<Rightarrow> poll \<Rightarrow> nat \<Rightarrow> error + vote" where
  "votes_get s self u =
     get_row (filter (\<lambda>v. poll_id v = poll_pk self \<and> user_id v = u) (decision_vote s))"

text \<open>
  The join behind a lookup on \<open>categories\<close>: a delegation without categories gives one
  row with a null category, any other one row for each of its categories.
\<close>

definition delegation_join :: "db \<Rightarrow> (delegation \<times> nat option) list" where
  "delegation_join s =
     concat (map (\<lambda>d.
       let cs = filter (\<lambda>dc. delegation_id dc = d_id d) (decision_delegation_categories s)
       in if cs = [] then [(d, None)] else map (\<lambda>dc. (d, Some (category_id dc))) cs)
     (decision_delegation s))"

text \<open>
  \<open>Delegation.objects.get(Q(categories=None) | Q(categories=self.category),
  leader=delegate, follower=user)\<close>
\<close>

definition delegation_get :: "db \<Rightarrow> poll \<Rightarrow> nat \<Rightarrow> nat \<Rightarrow> error + delegation" where
  "delegation_get s self l u =
     map_sum (\<lambda>e. e) fst
       (get_row (filter (\<lambda>(d, c). (c = None \<or> c = category self)
                                 \<and> leader_id d = l \<and> follower_id d = u)
                  (delegation_join s)))"


section \<open>propagate\_vote\<close>

text \<open>
  The text spliced into the query as \<open>{extra_condition}\<close>: for a poll with a category,
  \<open>d.id NOT IN (SELECT dc.delegation_id ...) OR d.id IN (SELECT dc.delegation_id ...
  WHERE dc.category_id = c)\<close>; for a poll without, \<open>(SELECT COUNT(id) ... WHERE
  dc.delegation_id = d.id) < 1\<close>.
\<close>

definition extra_condition :: "db \<Rightarrow> poll \<Rightarrow> delegation \<Rightarrow> bool" where
  "extra_condition s p d =
     (case category p of
        Some c \<Rightarrow>
          d_id d \<notin> set (map delegation_id (decision_delegation_categories s))
          \<or> d_id d \<in> set (map delegation_id
                (filter (\<lambda>dc. category_id dc = c) (decision_delegation_categories s)))
      | None \<Rightarrow>
          length (filter (\<lambda>dc. delegation_id dc = d_id d)
                    (decision_delegation_categories s)) < 1)"

text \<open>\<open>(SELECT COUNT(v.id) FROM decision_vote AS v WHERE v.user_id = d.follower_id AND
  v.poll_id = dlg_poll_id) < 1\<close>\<close>

definition no_vote :: "db \<Rightarrow> nat \<Rightarrow> nat \<Rightarrow> bool" where
  "no_vote s u p =
     (length (filter (\<lambda>v. user_id v = u \<and> poll_id v = p) (decision_vote s)) < 1)"

definition dlg_row :: "delegation \<Rightarrow> dlg \<Rightarrow> dlg" where
  "dlg_row d w =
     \<lparr>dlg_user_id = follower_id d, dlg_poll_id = dlg_poll_id w,
      dlg_choice_id = dlg_choice_id w, dlg_delegate_id = Some (leader_id d)\<rparr>"

text \<open>
  The recursive term of the query, evaluated with the working table \<open>W\<close> in the place
  of \<open>dlg\<close>: the join of \<open>decision_delegation\<close> with \<open>W\<close> on
  \<open>dlg.dlg_user_id = d.leader_id\<close>, filtered by the \<open>WHERE\<close> clause.
\<close>

definition recursive_term :: "db \<Rightarrow> poll \<Rightarrow> dlg list \<Rightarrow> dlg list" where
  "recursive_term s p W =
     concat (map (\<lambda>d. concat (map (\<lambda>w.
         if dlg_user_id w = leader_id d
            \<and> leader_id d = dlg_user_id w
            \<and> extra_condition s p d
            \<and> no_vote s (follower_id d) (dlg_poll_id w)
         then [dlg_row d w] else []) W))
       (decision_delegation s))"

text \<open>
  \<open>WITH RECURSIVE ... UNION\<close>: while the working table is not empty, the recursive term
  is evaluated on it; the rows that are duplicates of each other or of a row of the
  result so far are discarded, the rest is added to the result and becomes the next
  working table.
\<close>

definition new_rows :: "db \<Rightarrow> poll \<Rightarrow> dlg list \<Rightarrow> dlg list \<Rightarrow> dlg list" where
  "new_rows s p R W = remdups (filter (\<lambda>r. r \<notin> set R) (recursive_term s p W))"

definition candidates :: "db \<Rightarrow> dlg list \<Rightarrow> dlg set" where
  "candidates s W = (\<lambda>(d, w). dlg_row d w) ` (set (decision_delegation s) \<times> set W)"

function with_recursive :: "db \<Rightarrow> poll \<Rightarrow> dlg list \<Rightarrow> dlg list \<Rightarrow> dlg list" where
  "with_recursive s p R W =
     (if W = [] then R
      else with_recursive s p (R @ new_rows s p R W) (new_rows s p R W))"
  by pat_completeness auto

termination with_recursive
proof (relation "measure (\<lambda>(s, p, R, W).
          card (candidates s W - set R) + (if W = [] then 0 else 1))")
  show "wf (measure (\<lambda>(s, p, R, W).
          card (candidates s W - set R) + (if W = [] then 0 else 1)))"
    by simp
next
  fix s :: db and p :: poll and R W :: "dlg list"
  assume W: "W \<noteq> []"
  let ?N = "new_rows s p R W"
  have fin: "finite (candidates s W)"
    by (simp add: candidates_def)
  have N_sub: "set ?N \<subseteq> candidates s W - set R"
    by (auto simp: new_rows_def recursive_term_def candidates_def)
  have "dlg_row d n = dlg_row d w"
    if "n = dlg_row d' w" for d d' n w
    using that by (simp add: dlg_row_def)
  then have cand_sub: "candidates s ?N \<subseteq> candidates s W"
    by (fastforce simp: new_rows_def recursive_term_def candidates_def)
  show "((s, p, R @ ?N, ?N), (s, p, R, W)) \<in> measure (\<lambda>(s, p, R, W).
          card (candidates s W - set R) + (if W = [] then 0 else 1))"
  proof (cases "?N = []")
    case True
    then show ?thesis using W by (simp add: candidates_def)
  next
    case False
    then obtain x where x: "x \<in> set ?N" by (cases ?N) auto
    have "candidates s ?N - set (R @ ?N) \<subset> candidates s W - set R"
      using cand_sub N_sub x by auto
    then have "card (candidates s ?N - set (R @ ?N)) < card (candidates s W - set R)"
      using fin by (intro psubset_card_mono) auto
    then show ?thesis using W False by simp
  qed
qed

declare with_recursive.simps [simp del]

text \<open>
  The same loop with a bound on the number of times the working table is inspected:
  \<open>None\<close> when the bound is used up before the working table is empty.
\<close>

fun with_recursive_bounded ::
  "nat \<Rightarrow> db \<Rightarrow> poll \<Rightarrow> dlg list \<Rightarrow> dlg list \<Rightarrow> dlg list option" where
  "with_recursive_bounded 0 s p R W = None"
| "with_recursive_bounded (Suc n) s p R W =
     (if W = [] then Some R
      else with_recursive_bounded n s p (R @ new_rows s p R W) (new_rows s p R W))"

text \<open>The non-recursive term \<open>VALUES(user_id, poll_id, choice_id, null)\<close>.\<close>

definition root_row :: "vote \<Rightarrow> dlg" where
  "root_row inst =
     \<lparr>dlg_user_id = user_id inst, dlg_poll_id = poll_id inst,
      dlg_choice_id = choice_id inst, dlg_delegate_id = None\<rparr>"

text \<open>The table \<open>dlg\<close> for the saved vote \<open>inst\<close>, whose poll is \<open>p\<close>.\<close>

definition dlg_table :: "db \<Rightarrow> poll \<Rightarrow> vote \<Rightarrow> dlg list" where
  "dlg_table s p inst =
     with_recursive s p (remdups [root_row inst]) (remdups [root_row inst])"

text \<open>\<open>SELECT ... FROM dlg WHERE dlg_user_id != user_id\<close>, as rows of \<open>decision_vote\<close>.\<close>

definition selected_rows :: "db \<Rightarrow> poll \<Rightarrow> vote \<Rightarrow> vote list" where
  "selected_rows s p inst =
     map (\<lambda>r. \<lparr>user_id = dlg_user_id r, poll_id = dlg_poll_id r,
               choice_id = dlg_choice_id r, delegate_id = dlg_delegate_id r\<rparr>)
       (filter (\<lambda>r. dlg_user_id r \<noteq> user_id inst) (dlg_table s p inst))"

text \<open>
  \<open>INSERT INTO decision_vote\<close> under \<open>unique_together = ('user', 'poll')\<close>: a row
  whose user and poll are those of a row of the table, or of a row inserted before it,
  aborts the statement (\<open>None\<close>), and then no row of the statement is kept.
\<close>

fun insert_votes :: "vote list \<Rightarrow> vote list \<Rightarrow> vote list option" where
  "insert_votes tbl [] = Some tbl"
| "insert_votes tbl (v # vs) =
     (if list_ex (\<lambda>u. user_id u = user_id v \<and> poll_id u = poll_id v) tbl then None
      else insert_votes (tbl @ [v]) vs)"

definition propagate_vote :: "db \<Rightarrow> poll \<Rightarrow> vote \<Rightarrow> error + db" where
  "propagate_vote s p inst =
     (case insert_votes (decision_vote s) (selected_rows s p inst) of
        None \<Rightarrow> Inl IntegrityError
      | Some tbl \<Rightarrow> Inr (s\<lparr>decision_vote := tbl\<rparr>))"


section \<open>Poll.set\_vote, Poll.get\_vote, Poll.get\_user\_choice\<close>

text \<open>
  \<open>signals.post_save.connect(propagate_vote, sender=Vote)\<close>: saving a vote runs
  \<open>propagate_vote\<close> on it after the row is written. The row is written by a statement
  of its own, so it stays when the propagation raises.
\<close>

definition post_save :: "db \<Rightarrow> poll \<Rightarrow> vote \<Rightarrow> (error + vote) \<times> db" where
  "post_save s self v =
     (case propagate_vote s self v of
        Inl e \<Rightarrow> (Inl e, s)
      | Inr s' \<Rightarrow> (Inr v, s'))"

text \<open>
  The result is the vote that is returned, or the exception that is raised, and the
  tables as the call leaves them.
\<close>

definition set_vote ::
  "db \<Rightarrow> poll \<Rightarrow> nat \<Rightarrow> choice_arg \<Rightarrow> nat option \<Rightarrow> bool \<Rightarrow> (error + vote) \<times> db" where
  "set_vote s self u ch delegate secure =
     (if \<not> is_open self then (Inl PollClosed, s)
      else case ch of
        OtherObj \<Rightarrow> (Inl InvalidChoice, s)
      | ChoiceObj c \<Rightarrow>
          if choice_poll c \<noteq> poll_pk self then (Inl InvalidChoice, s)
          else case (if secure \<and> delegate \<noteq> None
                     then (case delegation_get s self (the delegate) u of
                             Inl DoesNotExist \<Rightarrow> Some Exception
                           | Inl e \<Rightarrow> Some e
                           | Inr d \<Rightarrow> None)
                     else None) of
            Some e \<Rightarrow> (Inl e, s)
          | None \<Rightarrow>
              (case votes_get s self u of
                 Inl DoesNotExist \<Rightarrow>
                   (let v = \<lparr>user_id = u, poll_id = poll_pk self,
                             choice_id = choice_pk c, delegate_id = delegate\<rparr>
                    in post_save (s\<lparr>decision_vote := decision_vote s @ [v]\<rparr>) self v)
               | Inl e \<Rightarrow> (Inl e, s)
               | Inr v0 \<Rightarrow>
                   if secure \<and> delegate \<noteq> None \<and> delegate_id v0 = None
                   then (Inl Exception, s)
                   else
                     (let v = v0\<lparr>choice_id := choice_pk c, delegate_id := delegate\<rparr>
                      in post_save
                           (s\<lparr>decision_vote :=
                                map (\<lambda>r. if poll_id r = poll_pk self \<and> user_id r = u
                                          then v else r) (decision_vote s)\<rparr>)
                           self v)))"

definition get_vote :: "db \<Rightarrow> poll \<Rightarrow> nat \<Rightarrow> error + vote" where
  "get_vote s self u = votes_get s self u"

text \<open>The result \<open>Inr None\<close> is the bare \<open>return\<close>, Python's \<open>None\<close>.\<close>

definition get_user_choice :: "db \<Rightarrow> poll \<Rightarrow> nat \<Rightarrow> error + nat option" where
  "get_user_choice s self u =
     (case get_vote s self u of
        Inr v \<Rightarrow> Inr (Some (choice_id v))
      | Inl DoesNotExist \<Rightarrow> Inr None
      | Inl e \<Rightarrow> Inl e)"


section \<open>Saving a Delegation\<close>

text \<open>The \<open>pre_save\<close> receiver: \<open>Some\<close> is the exception it raises.\<close>

definition prevent_delegation_to_self :: "delegation \<Rightarrow> error option" where
  "prevent_delegation_to_self inst =
     (if leader_id inst = follower_id inst then Some CantDelegateToSelf else None)"

text \<open>
  \<open>Delegation.save()\<close> of a new row: the \<open>pre_save\<close> signal is sent first, then the row
  is inserted under the primary key and \<open>unique_together = ('leader', 'follower')\<close>.
\<close>

definition delegation_save :: "db \<Rightarrow> delegation \<Rightarrow> error + db" where
  "delegation_save s inst =
     (case prevent_delegation_to_self inst of
        Some e \<Rightarrow> Inl e
      | None \<Rightarrow>
          if list_ex (\<lambda>d. d_id d = d_id inst
                         \<or> (leader_id d = leader_id inst \<and> follower_id d = follower_id inst))
               (decision_delegation s)
          then Inl IntegrityError
          else Inr (s\<lparr>decision_delegation := decision_delegation s @ [inst]\<rparr>))"


section \<open>Constraints of the tables and delegation paths\<close>

text \<open>\<open>unique_together = ('user', 'poll')\<close> on \<open>decision_vote\<close>.\<close>

definition votes_unique :: "db \<Rightarrow> bool" where
  "votes_unique s = distinct (map (\<lambda>v. (user_id v, poll_id v)) (decision_vote s))"

text \<open>
  \<open>unique_together = ('leader', 'follower')\<close> on \<open>decision_delegation\<close>, and the
  uniqueness of the pairs of the many-to-many table.
\<close>

definition delegations_unique :: "db \<Rightarrow> bool" where
  "delegations_unique s =
     (distinct (map (\<lambda>d. (leader_id d, follower_id d)) (decision_delegation s))
      \<and> distinct (map (\<lambda>dc. (delegation_id dc, category_id dc))
                    (decision_delegation_categories s)))"

text \<open>The category scope of a delegation: the categories attached to it.\<close>

definition scope :: "db \<Rightarrow> delegation \<Rightarrow> nat set" where
  "scope s d =
     category_id ` {dc \<in> set (decision_delegation_categories s). delegation_id dc = d_id d}"

text \<open>
  A delegation matches a poll when its scope is empty or holds the poll's category.
\<close>

definition scope_matches :: "db \<Rightarrow> poll \<Rightarrow> delegation \<Rightarrow> bool" where
  "scope_matches s p d =
     (scope s d = {} \<or> (case category p of None \<Rightarrow> False | Some c \<Rightarrow> c \<in> scope s d))"

text \<open>
  \<open>us\<close> is a delegation path: each user of the list is a follower of the next one.
\<close>

fun delegation_path :: "db \<Rightarrow> nat list \<Rightarrow> bool" where
  "delegation_path s [] = True"
| "delegation_path s [u] = True"
| "delegation_path s (u # v # us) =
     (list_ex (\<lambda>d. follower_id d = u \<and> leader_id d = v) (decision_delegation s)
      \<and> delegation_path s (v # us))"

text \<open>No stored delegation has its follower as its leader.\<close>

definition no_self_delegation :: "db \<Rightarrow> bool" where
  "no_self_delegation s = list_all (\<lambda>d. leader_id d \<noteq> follower_id d) (decision_delegation s)"

text \<open>The choice is a \<open>Choice\<close> of the poll: the negation of the test of \<open>set_vote\<close>.\<close>

definition belongs_to :: "poll \<Rightarrow> choice_arg \<Rightarrow> bool" where
  "belongs_to self ch =
     (case ch of ChoiceObj c \<Rightarrow> choice_poll c = poll_pk self | OtherObj \<Rightarrow> False)"

text \<open>
  The authorization rule in the words of the specification: a delegation from follower
  \<open>u\<close> to leader \<open>l\<close> exists whose scope is empty or holds the category of the poll.
\<close>

definition authorized :: "db \<Rightarrow> poll \<Rightarrow> nat \<Rightarrow> nat \<Rightarrow> bool" where
  "authorized s self l u =
     list_ex (\<lambda>d. leader_id d = l \<and> follower_id d = u \<and> scope_matches s self d)
       (decision_delegation s)"


section \<open>Example data\<close>

text \<open>
  Users 1, 2, 3 and 4 stand for A, B, C and D of the scenarios; poll 7 has no category,
  choice 5 is its "Yes" and choice 6 its "No".
\<close>

definition ex_poll :: poll where
  "ex_poll = \<lparr>poll_pk = 7, category = None, is_open = True\<rparr>"

definition ex_closed_poll :: poll where
  "ex_closed_poll = \<lparr>poll_pk = 7, category = None, is_open = False\<rparr>"

definition ex_yes :: choice where
  "ex_yes = \<lparr>choice_pk = 5, choice_poll = 7\<rparr>"

definition ex_no :: choice where
  "ex_no = \<lparr>choice_pk = 6, choice_poll = 7\<rparr>"

text \<open>B and C delegate to A, D delegates to B, all without categories; nobody has voted.\<close>

definition ex_chain :: db where
  "ex_chain =
     \<lparr>decision_vote = [],
      decision_delegation =
        [\<lparr>d_id = 1, follower_id = 2, leader_id = 1\<rparr>,
         \<lparr>d_id = 2, follower_id = 3, leader_id = 1\<rparr>,
         \<lparr>d_id = 3, follower_id = 4, leader_id = 2\<rparr>],
      decision_delegation_categories = []\<rparr>"

text \<open>B delegates to A and has voted "No" directly.\<close>

definition ex_direct :: db where
  "ex_direct =
     \<lparr>decision_vote = [\<lparr>user_id = 2, poll_id = 7, choice_id = 6, delegate_id = None\<rparr>],
      decision_delegation = [\<lparr>d_id = 1, follower_id = 2, leader_id = 1\<rparr>],
      decision_delegation_categories = []\<rparr>"

text \<open>
  The votes cast by users 1, 2 and 3 themselves: "Yes" for users 1 and 3, "No" for
  user 2.
\<close>

definition ex_vote1 :: vote where
  "ex_vote1 = \<lparr>user_id = 1, poll_id = 7, choice_id = 5, delegate_id = None\<rparr>"

definition ex_vote2 :: vote where
  "ex_vote2 = \<lparr>user_id = 2, poll_id = 7, choice_id = 6, delegate_id = None\<rparr>"

definition ex_vote3 :: vote where
  "ex_vote3 = \<lparr>user_id = 3, poll_id = 7, choice_id = 5, delegate_id = None\<rparr>"

text \<open>The delegations of \<open>ex_chain\<close>, after B and then A have voted.\<close>

definition ex_cutoff :: db where
  "ex_cutoff = ex_chain\<lparr>decision_vote := [ex_vote2, ex_vote1]\<rparr>"

text \<open>A cycle: A delegates to B, B to C and C to A.\<close>

definition ex_cycle :: db where
  "ex_cycle =
     \<lparr>decision_vote = [],
      decision_delegation =
        [\<lparr>d_id = 1, follower_id = 1, leader_id = 2\<rparr>,
         \<lparr>d_id = 2, follower_id = 2, leader_id = 3\<rparr>,
         \<lparr>d_id = 3, follower_id = 3, leader_id = 1\<rparr>],
      decision_delegation_categories = []\<rparr>"

text \<open>A diamond: B and C delegate to A, and D delegates to both B and C.\<close>

definition ex_diamond :: db where
  "ex_diamond =
     \<lparr>decision_vote = [],
      decision_delegation =
        [\<lparr>d_id = 1, follower_id = 2, leader_id = 1\<rparr>,
         \<lparr>d_id = 2, follower_id = 3, leader_id = 1\<rparr>,
         \<lparr>d_id = 3, follower_id = 4, leader_id = 2\<rparr>,
         \<lparr>d_id = 4, follower_id = 4, leader_id = 3\<rparr>],
      decision_delegation_categories = []\<rparr>"

text \<open>
  B delegates to A for category 1 ("Finance") only, C delegates to A without
  categories; A has voted on poll 8, of category 2 ("Health"), for its choice 9.
\<close>

definition ex_health_poll :: poll where
  "ex_health_poll = \<lparr>poll_pk = 8, category = Some 2, is_open = True\<rparr>"

definition ex_health_vote :: vote where
  "ex_health_vote = \<lparr>user_id = 1, poll_id = 8, choice_id = 9, delegate_id = None\<rparr>"

definition ex_scoped :: db where
  "ex_scoped =
     \<lparr>decision_vote = [ex_health_vote],
      decision_delegation =
        [\<lparr>d_id = 1, follower_id = 2, leader_id = 1\<rparr>,
         \<lparr>d_id = 2, follower_id = 3, leader_id = 1\<rparr>],
      decision_delegation_categories = [\<lparr>delegation_id = 1, category_id = 1\<rparr>]\<rparr>"


section \<open>Results of the queries\<close>

lemma get_row_error: "get_row xs = Inl e \<Longrightarrow> e = DoesNotExist \<or> e = MultipleObjectsReturned"
  by (cases xs rule: get_row.cases) auto

lemma get_row_DoesNotExist: "get_row xs = Inl DoesNotExist \<longleftrightarrow> xs = []"
  by (cases xs rule: get_row.cases) auto

lemma get_row_Multiple: "get_row xs = Inl MultipleObjectsReturned \<longleftrightarrow> 2 \<le> length xs"
  by (cases xs rule: get_row.cases) auto

lemma get_row_Inr: "get_row xs = Inr x \<longleftrightarrow> xs = [x]"
  by (cases xs rule: get_row.cases) auto

lemma votes_get_error:
  "votes_get s self u = Inl e \<Longrightarrow> e = DoesNotExist \<or> e = MultipleObjectsReturned"
  unfolding votes_get_def by (rule get_row_error)

lemma delegation_get_error:
  "delegation_get s self l u = Inl e \<Longrightarrow> e = DoesNotExist \<or> e = MultipleObjectsReturned"
  unfolding delegation_get_def
  by (auto simp: map_sum_def split: sum.splits dest: get_row_error)

lemma scope_empty_iff:
  "scope s d = {} \<longleftrightarrow>
     filter (\<lambda>dc. delegation_id dc = d_id d) (decision_delegation_categories s) = []"
  by (auto simp: scope_def filter_empty_conv)

lemma extra_condition_iff: "extra_condition s p d \<longleftrightarrow> scope_matches s p d"
proof (cases "category p")
  case None
  then show ?thesis
    by (simp add: extra_condition_def scope_matches_def scope_empty_iff)
next
  case (Some c)
  have "d_id d \<notin> set (map delegation_id (decision_delegation_categories s))
          \<longleftrightarrow> scope s d = {}"
    by (force simp: scope_def image_iff)
  moreover have "d_id d \<in> set (map delegation_id
        (filter (\<lambda>dc. category_id dc = c) (decision_delegation_categories s)))
          \<longleftrightarrow> c \<in> scope s d"
    by (force simp: scope_def image_iff)
  ultimately show ?thesis
    using Some by (simp add: extra_condition_def scope_matches_def)
qed

lemma in_delegation_join:
  "(d, c) \<in> set (delegation_join s) \<longleftrightarrow>
     d \<in> set (decision_delegation s)
     \<and> (if scope s d = {} then c = None else \<exists>k\<in>scope s d. c = Some k)"
  by (auto simp: delegation_join_def Let_def scope_def filter_empty_conv)

lemma delegation_get_DoesNotExist:
  "delegation_get s self l u = Inl DoesNotExist \<longleftrightarrow> \<not> authorized s self l u"
proof -
  let ?Q = "\<lambda>(d, c). (c = None \<or> c = category self) \<and> leader_id d = l \<and> follower_id d = u"
  have "delegation_get s self l u = Inl DoesNotExist
          \<longleftrightarrow> filter ?Q (delegation_join s) = []"
    by (auto simp: delegation_get_def map_sum_def get_row_DoesNotExist
        split: sum.splits dest: get_row_error)
  also have "\<dots> \<longleftrightarrow> (\<forall>d c. (d, c) \<in> set (delegation_join s) \<longrightarrow> \<not> ?Q (d, c))"
    by (auto simp: filter_empty_conv)
  also have "\<dots> \<longleftrightarrow> \<not> authorized s self l u"
    unfolding in_delegation_join authorized_def list_ex_iff scope_matches_def
    by (cases "category self") (auto split: if_splits)
  finally show ?thesis .
qed

lemma length_filter_mono:
  "(\<And>x. P x \<Longrightarrow> Q x) \<Longrightarrow> length (filter P xs) \<le> length (filter Q xs)"
  by (induction xs) auto

lemma distinct_map_filter_le1:
  assumes "distinct (map f xs)" and "\<And>x. x \<in> set xs \<Longrightarrow> P x \<Longrightarrow> f x = k"
  shows "length (filter P xs) \<le> 1"
  using assms
proof (induction xs)
  case Nil
  then show ?case by simp
next
  case (Cons a xs)
  show ?case
  proof (cases "P a")
    case True
    have "filter P xs = []"
    proof (rule ccontr)
      assume "filter P xs \<noteq> []"
      then obtain y where y: "y \<in> set xs" "P y"
        by (auto simp: filter_empty_conv)
      then have "f y = k" "f a = k" using Cons.prems(2) True by auto
      then show False using Cons.prems(1) y(1) by force
    qed
    then show ?thesis using True by simp
  next
    case False
    then show ?thesis using Cons by simp
  qed
qed

lemma distinct_map_filter_eq:
  assumes "distinct (map f xs)" and "x \<in> set xs"
  shows "filter (\<lambda>y. f y = f x) xs = [x]"
  using assms
proof (induction xs)
  case Nil
  then show ?case by simp
next
  case (Cons a xs)
  show ?case
  proof (cases "a = x")
    case True
    have "filter (\<lambda>y. f y = f x) xs = []"
      using Cons.prems(1) True by (auto simp: filter_empty_conv image_iff)
    then show ?thesis using True by simp
  next
    case False
    then have "x \<in> set xs" using Cons.prems(2) by simp
    moreover have "f a \<noteq> f x" using Cons.prems(1) calculation by force
    ultimately show ?thesis using Cons by simp
  qed
qed

lemma delegation_join_filter_le1:
  assumes "delegations_unique s"
  shows "length (filter (\<lambda>(d, c). (c = None \<or> c = category self)
                                 \<and> leader_id d = l \<and> follower_id d = u)
                  (delegation_join s)) \<le> 1"
proof -
  let ?Q = "\<lambda>(d, c). (c = None \<or> c = category self) \<and> leader_id d = l \<and> follower_id d = u"
  let ?dcs = "decision_delegation_categories s"
  let ?g = "\<lambda>d. let cs = filter (\<lambda>dc. delegation_id dc = d_id d) ?dcs
       in if cs = [] then [(d, None)] else map (\<lambda>dc. (d, Some (category_id dc))) cs"
  have dist_d: "distinct (map (\<lambda>d. (leader_id d, follower_id d)) (decision_delegation s))"
    and dist_c: "distinct (map (\<lambda>dc. (delegation_id dc, category_id dc)) ?dcs)"
    using assms by (simp_all add: delegations_unique_def)
  have one: "length (filter ?Q (?g d)) \<le> 1" for d
  proof (cases "filter (\<lambda>dc. delegation_id dc = d_id d) ?dcs = []")
    case True
    then show ?thesis by (simp add: Let_def)
  next
    case False
    have "length (filter ?Q (?g d))
            \<le> length (filter (\<lambda>dc. delegation_id dc = d_id d
                                   \<and> Some (category_id dc) = category self) ?dcs)"
      using False
      by (simp add: Let_def filter_map o_def) (rule length_filter_mono, simp)
    also have "\<dots> \<le> 1"
    proof (cases "category self")
      case None
      then show ?thesis by simp
    next
      case (Some c)
      show ?thesis
        by (rule distinct_map_filter_le1 [OF dist_c, where k = "(d_id d, c)"])
          (use Some in auto)
    qed
    finally show ?thesis .
  qed
  have zero: "filter ?Q (?g d) = []" if "(leader_id d, follower_id d) \<noteq> (l, u)" for d
    using that by (auto simp: Let_def filter_empty_conv)
  have "length (filter ?Q (concat (map ?g ds))) \<le> 1"
    if "distinct (map (\<lambda>d. (leader_id d, follower_id d)) ds)" for ds
    using that
  proof (induction ds)
    case Nil
    then show ?case by simp
  next
    case (Cons a ds)
    show ?case
    proof (cases "(leader_id a, follower_id a) = (l, u)")
      case True
      have "filter ?Q (?g d) = []" if "d \<in> set ds" for d
      proof (rule zero)
        show "(leader_id d, follower_id d) \<noteq> (l, u)"
          using Cons.prems that True by (auto simp: image_iff)
      qed
      then have "filter ?Q (concat (map ?g ds)) = []"
        by (induction ds) auto
      then show ?thesis using one [of a] by simp
    next
      case False
      then have "filter ?Q (?g a) = []" by (rule zero)
      then show ?thesis using Cons by simp
    qed
  qed
  from this [OF dist_d] show ?thesis
    by (simp add: delegation_join_def)
qed

lemma delegation_get_not_Multiple:
  "delegations_unique s \<Longrightarrow> delegation_get s self l u \<noteq> Inl MultipleObjectsReturned"
  using delegation_join_filter_le1 [of s self l u]
  by (auto simp: delegation_get_def map_sum_def get_row_Multiple split: sum.splits)

lemma votes_get_unique:
  assumes "votes_unique s" "v \<in> set (decision_vote s)"
    and that: "poll_id v = poll_pk self'" "user_id v = u"
  shows "votes_get s self' u = Inr v"
proof -
  have "filter (\<lambda>y. (user_id y, poll_id y) = (user_id v, poll_id v)) (decision_vote s) = [v]"
    using assms(1,2)
    by (intro distinct_map_filter_eq [where f = "\<lambda>v. (user_id v, poll_id v)"])
      (simp_all add: votes_unique_def)
  moreover have "filter (\<lambda>v. poll_id v = poll_pk self' \<and> user_id v = u) (decision_vote s)
      = filter (\<lambda>y. (user_id y, poll_id y) = (user_id v, poll_id v)) (decision_vote s)"
    by (rule filter_cong) (use that in auto)
  ultimately show ?thesis by (simp add: votes_get_def)
qed

lemma votes_get_none:
  "votes_get s self u = Inl DoesNotExist \<longleftrightarrow>
     (\<forall>v\<in>set (decision_vote s). \<not> (poll_id v = poll_pk self \<and> user_id v = u))"
  by (auto simp: votes_get_def get_row_DoesNotExist filter_empty_conv)


section \<open>Results of propagate\_vote and set\_vote\<close>

lemma insert_votes_append: "insert_votes tbl vs = Some t \<Longrightarrow> t = tbl @ vs"
proof (induction vs arbitrary: tbl)
  case Nil
  then show ?case by simp
next
  case (Cons v vs)
  from Cons.prems have "insert_votes (tbl @ [v]) vs = Some t"
    by (simp split: if_splits)
  from Cons.IH [OF this] show ?case by simp
qed

lemma insert_votes_distinct:
  "insert_votes tbl vs = Some t \<Longrightarrow> distinct (map (\<lambda>v. (user_id v, poll_id v)) tbl) \<Longrightarrow>
     distinct (map (\<lambda>v. (user_id v, poll_id v)) t)"
proof (induction vs arbitrary: tbl)
  case Nil
  then show ?case by simp
next
  case (Cons v vs)
  from Cons.prems(1) have no: "\<not> list_ex (\<lambda>u. user_id u = user_id v \<and> poll_id u = poll_id v) tbl"
    and rest: "insert_votes (tbl @ [v]) vs = Some t"
    by (auto split: if_splits)
  from no have "(user_id v, poll_id v) \<notin> (\<lambda>v. (user_id v, poll_id v)) ` set tbl"
    by (auto simp: list_ex_iff)
  then have "distinct (map (\<lambda>v. (user_id v, poll_id v)) (tbl @ [v]))"
    using Cons.prems(2) by simp
  then show ?case by (rule Cons.IH [OF rest])
qed

lemma propagate_vote_error: "propagate_vote s p v = Inl e \<Longrightarrow> e = IntegrityError"
  by (auto simp: propagate_vote_def split: option.splits)

lemma propagate_vote_Inr:
  "propagate_vote s p inst = Inr s' \<Longrightarrow>
     s' = s\<lparr>decision_vote := decision_vote s @ selected_rows s p inst\<rparr>"
  by (auto simp: propagate_vote_def split: option.splits dest: insert_votes_append)

lemma propagate_vote_votes_unique:
  "propagate_vote s p inst = Inr s' \<Longrightarrow> votes_unique s \<Longrightarrow> votes_unique s'"
  by (auto simp: propagate_vote_def votes_unique_def split: option.splits
      dest: insert_votes_distinct)

lemma selected_rows_user: "v \<in> set (selected_rows s p inst) \<Longrightarrow> user_id v \<noteq> user_id inst"
  by (auto simp: selected_rows_def)

lemma post_save_error: "fst (post_save s self v) = Inl e \<Longrightarrow> e = IntegrityError"
  by (auto simp: post_save_def split: sum.splits dest: propagate_vote_error)

lemma post_save_votes:
  "decision_vote (snd (post_save s self v)) = decision_vote s
   \<or> decision_vote (snd (post_save s self v)) = decision_vote s @ selected_rows s self v"
  by (auto simp: post_save_def split: sum.splits dest: propagate_vote_Inr)

lemma post_save_delegations:
  "decision_delegation (snd (post_save s self v)) = decision_delegation s"
  by (auto simp: post_save_def split: sum.splits dest: propagate_vote_Inr)

lemma post_save_votes_unique:
  "votes_unique s \<Longrightarrow> votes_unique (snd (post_save s self v))"
  by (auto simp: post_save_def split: sum.splits dest: propagate_vote_votes_unique)

lemma post_save_votes_get:
  assumes "user_id v = u"
  shows "votes_get (snd (post_save s self v)) self u = votes_get s self u"
proof -
  have "filter (\<lambda>r. poll_id r = poll_pk self \<and> user_id r = u) (selected_rows s self v) = []"
    using assms by (auto simp: filter_empty_conv dest: selected_rows_user)
  then show ?thesis
    using post_save_votes [of s self v] by (auto simp: votes_get_def)
qed

lemma set_vote_closed:
  "\<not> is_open self \<Longrightarrow> set_vote s self u ch delegate secure = (Inl PollClosed, s)"
  by (simp add: set_vote_def)

lemma set_vote_invalid:
  "is_open self \<Longrightarrow> \<not> belongs_to self ch \<Longrightarrow>
     set_vote s self u ch delegate secure = (Inl InvalidChoice, s)"
  by (simp add: set_vote_def belongs_to_def split: choice_arg.splits)

lemma set_vote_open_error:
  assumes "is_open self" "belongs_to self ch"
    and "fst (set_vote s self u ch delegate secure) = Inl e"
  shows "e = Exception \<or> e = MultipleObjectsReturned \<or> e = IntegrityError"
  using assms
  by (auto simp: set_vote_def belongs_to_def Let_def
      split: choice_arg.splits if_splits sum.splits error.splits option.splits
      dest!: post_save_error votes_get_error delegation_get_error)

lemma set_vote_delegations:
  "decision_delegation (snd (set_vote s self u ch delegate secure)) = decision_delegation s"
  by (auto simp: set_vote_def Let_def post_save_delegations
      split: choice_arg.splits sum.splits error.splits option.splits)

lemma filter_map_replace:
  "P v \<Longrightarrow> filter P (map (\<lambda>r. if P r then v else r) xs) = map (\<lambda>_. v) (filter P xs)"
  by (induction xs) auto

lemma votes_get_Inr:
  "votes_get s self u = Inr v \<longleftrightarrow>
     filter (\<lambda>r. poll_id r = poll_pk self \<and> user_id r = u) (decision_vote s) = [v]"
  by (simp add: votes_get_def get_row_Inr)

lemma votes_get_InrD:
  assumes "votes_get s self u = Inr v"
  shows "poll_id v = poll_pk self" "user_id v = u" "v \<in> set (decision_vote s)"
proof -
  have "v \<in> set (filter (\<lambda>r. poll_id r = poll_pk self \<and> user_id r = u) (decision_vote s))"
    using assms by (simp add: votes_get_Inr)
  then show "poll_id v = poll_pk self" "user_id v = u" "v \<in> set (decision_vote s)"
    by auto
qed

lemma votes_get_update:
  assumes "votes_get s self u = Inr v0"
  shows "votes_get
           (s\<lparr>decision_vote :=
                map (\<lambda>r. if poll_id r = poll_pk self \<and> user_id r = u
                          then v0\<lparr>choice_id := k, delegate_id := dl\<rparr> else r)
                  (decision_vote s)\<rparr>) self u
         = Inr (v0\<lparr>choice_id := k, delegate_id := dl\<rparr>)"
proof -
  let ?P = "\<lambda>r. poll_id r = poll_pk self \<and> user_id r = u"
  let ?v = "v0\<lparr>choice_id := k, delegate_id := dl\<rparr>"
  have "?P ?v" using votes_get_InrD [OF assms] by simp
  then have "filter ?P (map (\<lambda>r. if ?P r then ?v else r) (decision_vote s))
               = map (\<lambda>_. ?v) (filter ?P (decision_vote s))"
    by (rule filter_map_replace)
  then show ?thesis
    using assms by (simp add: votes_get_Inr)
qed

text \<open>A secured submission with a delegate, once the poll and the choice have passed.\<close>

lemma set_vote_secured:
  assumes "is_open self" "belongs_to self ch"
  shows "delegation_get s self l u = Inl DoesNotExist \<Longrightarrow>
           set_vote s self u ch (Some l) True = (Inl Exception, s)"
    and "delegation_get s self l u = Inl MultipleObjectsReturned \<Longrightarrow>
           set_vote s self u ch (Some l) True = (Inl MultipleObjectsReturned, s)"
    and "delegation_get s self l u = Inr d \<Longrightarrow> votes_get s self u = Inr v0 \<Longrightarrow>
           delegate_id v0 = None \<Longrightarrow>
           set_vote s self u ch (Some l) True = (Inl Exception, s)"
    and "delegation_get s self l u = Inr d \<Longrightarrow> votes_get s self u = Inr v0 \<Longrightarrow>
           delegate_id v0 \<noteq> None \<Longrightarrow>
           fst (set_vote s self u ch (Some l) True) \<noteq> Inl Exception"
    and "delegation_get s self l u = Inr d \<Longrightarrow> votes_get s self u = Inl e \<Longrightarrow>
           fst (set_vote s self u ch (Some l) True) \<noteq> Inl Exception"
  using assms
  by (auto simp: set_vote_def belongs_to_def Let_def
      split: choice_arg.splits error.splits
      dest!: post_save_error votes_get_error)

lemma set_vote_no_check:
  "delegate = None \<or> \<not> secure \<Longrightarrow>
     fst (set_vote s self u ch delegate secure) \<noteq> Inl Exception"
  by (auto simp: set_vote_def Let_def
      split: choice_arg.splits error.splits sum.splits
      dest!: post_save_error votes_get_error)

text \<open>Every call of \<open>set_vote\<close> keeps the uniqueness of the votes of a user on a poll.\<close>

lemma set_vote_votes_unique:
  assumes "votes_unique s"
  shows "votes_unique (snd (set_vote s self u ch delegate secure))"
proof -
  have create: "votes_unique (s\<lparr>decision_vote := decision_vote s @ [v]\<rparr>)"
    if "votes_get s self u = Inl DoesNotExist" "user_id v = u" "poll_id v = poll_pk self" for v
  proof -
    have "(user_id v, poll_id v) \<notin> (\<lambda>v. (user_id v, poll_id v)) ` set (decision_vote s)"
      using that by (auto simp: votes_get_none)
    then show ?thesis using assms by (simp add: votes_unique_def)
  qed
  have update: "votes_unique (s\<lparr>decision_vote :=
        map (\<lambda>r. if poll_id r = poll_pk self \<and> user_id r = u then v else r)
          (decision_vote s)\<rparr>)"
    if "user_id v = u" "poll_id v = poll_pk self" for v
  proof -
    have "map (\<lambda>v. (user_id v, poll_id v))
            (map (\<lambda>r. if poll_id r = poll_pk self \<and> user_id r = u then v else r) xs)
          = map (\<lambda>v. (user_id v, poll_id v)) xs" for xs
      using that by (induction xs) auto
    then show ?thesis using assms by (simp add: votes_unique_def del: map_map)
  qed
  show ?thesis
    by (auto simp: set_vote_def Let_def
        split: choice_arg.splits sum.splits error.splits option.splits
        intro!: post_save_votes_unique create update assms
        dest: votes_get_InrD)
qed


section \<open>The recursive query\<close>

lemma in_recursive_term:
  "r \<in> set (recursive_term s p W) \<longleftrightarrow>
     (\<exists>d\<in>set (decision_delegation s). \<exists>w\<in>set W.
        dlg_user_id w = leader_id d \<and> extra_condition s p d
        \<and> no_vote s (follower_id d) (dlg_poll_id w) \<and> r = dlg_row d w)"
  unfolding recursive_term_def by fastforce

lemma set_new_rows: "set (new_rows s p R W) = set (recursive_term s p W) - set R"
  by (auto simp: new_rows_def)

lemma distinct_new_rows: "distinct (new_rows s p R W)"
  by (simp add: new_rows_def)

lemma recursive_term_Nil: "recursive_term s p [] = []"
  by (simp add: recursive_term_def)

lemma new_rows_Nil: "new_rows s p R [] = []"
  by (simp add: new_rows_def recursive_term_Nil)

lemma set_recursive_term_append:
  "set (recursive_term s p (A @ B)) = set (recursive_term s p A) \<union> set (recursive_term s p B)"
  by (rule set_eqI, unfold Un_iff in_recursive_term set_append) blast

lemma set_recursive_term_mono:
  "set A \<subseteq> set B \<Longrightarrow> set (recursive_term s p A) \<subseteq> set (recursive_term s p B)"
  unfolding subset_iff in_recursive_term by blast

text \<open>A property of the rows of \<open>R\<close> and \<open>W\<close> that the join keeps holds of the result.\<close>

lemma with_recursive_invariant:
  assumes "\<And>r. r \<in> set R \<Longrightarrow> I r" and "\<And>r. r \<in> set W \<Longrightarrow> I r"
    and "\<And>d w. d \<in> set (decision_delegation s) \<Longrightarrow> I w \<Longrightarrow>
            dlg_user_id w = leader_id d \<Longrightarrow> extra_condition s p d \<Longrightarrow>
            no_vote s (follower_id d) (dlg_poll_id w) \<Longrightarrow> I (dlg_row d w)"
    and "r \<in> set (with_recursive s p R W)"
  shows "I r"
  using assms
proof (induction s p R W rule: with_recursive.induct)
  case (1 s p R W)
  note step = "1.prems"(3)
  show ?case
  proof (cases "W = []")
    case True
    then show ?thesis using "1.prems"(1,4) by (simp add: with_recursive.simps)
  next
    case False
    have new: "I x" if "x \<in> set (new_rows s p R W)" for x
    proof -
      from that have "x \<in> set (recursive_term s p W)"
        by (simp add: set_new_rows)
      then obtain d w where "d \<in> set (decision_delegation s)" "w \<in> set W"
        "dlg_user_id w = leader_id d" "extra_condition s p d"
        "no_vote s (follower_id d) (dlg_poll_id w)" "x = dlg_row d w"
        unfolding in_recursive_term by blast
      then show ?thesis using step "1.prems"(2) by blast
    qed
    have r: "r \<in> set (with_recursive s p (R @ new_rows s p R W) (new_rows s p R W))"
      using "1.prems"(4) False by (subst (asm) with_recursive.simps) simp
    show ?thesis
    proof (rule "1.IH" [OF False _ _ _ r])
      show "I x" if "x \<in> set (R @ new_rows s p R W)" for x
        using that "1.prems"(1) new by auto
      show "I x" if "x \<in> set (new_rows s p R W)" for x
        using that by (rule new)
      show "I (dlg_row d w)"
        if "d \<in> set (decision_delegation s)" "I w" "dlg_user_id w = leader_id d"
          "extra_condition s p d" "no_vote s (follower_id d) (dlg_poll_id w)" for d w
        using that by (rule step)
    qed
  qed
qed

lemma with_recursive_distinct:
  "distinct R \<Longrightarrow> distinct (with_recursive s p R W)"
proof (induction s p R W rule: with_recursive.induct)
  case (1 s p R W)
  show ?case
  proof (cases "W = []")
    case True
    then show ?thesis using "1.prems" by (simp add: with_recursive.simps)
  next
    case False
    have "distinct (R @ new_rows s p R W)"
      using "1.prems" by (auto simp: distinct_new_rows set_new_rows)
    from "1.IH" [OF False this] show ?thesis
      using False by (subst with_recursive.simps) simp
  qed
qed

lemma with_recursive_closed:
  assumes "set (recursive_term s p R) \<subseteq> set R \<union> set (recursive_term s p W)"
  shows "set (recursive_term s p (with_recursive s p R W)) \<subseteq> set (with_recursive s p R W)"
  using assms
proof (induction s p R W rule: with_recursive.induct)
  case (1 s p R W)
  show ?case
  proof (cases "W = []")
    case True
    then show ?thesis using "1.prems" by (simp add: with_recursive.simps recursive_term_Nil)
  next
    case False
    let ?N = "new_rows s p R W"
    have "set (recursive_term s p (R @ ?N)) \<subseteq> set (R @ ?N) \<union> set (recursive_term s p ?N)"
      using "1.prems" by (auto simp: set_recursive_term_append set_new_rows)
    from "1.IH" [OF False this] show ?thesis
      using False by (subst (1 2) with_recursive.simps) simp
  qed
qed

text \<open>The number of rows still to be found bounds the number of rounds.\<close>

lemma candidates_new_rows: "candidates s (new_rows s p R W) \<subseteq> candidates s W"
proof -
  have "dlg_row d n = dlg_row d w" if "n = dlg_row d' w" for d d' n w
    using that by (simp add: dlg_row_def)
  then show ?thesis
    by (fastforce simp: set_new_rows in_recursive_term candidates_def)
qed

lemma new_rows_candidates: "set (new_rows s p R W) \<subseteq> candidates s W - set R"
  by (auto simp: set_new_rows in_recursive_term candidates_def)

lemma remaining_decreases:
  assumes "W \<noteq> []"
  shows "card (candidates s (new_rows s p R W) - set (R @ new_rows s p R W))
           + (if new_rows s p R W = [] then 0 else 1)
         < card (candidates s W - set R) + 1"
proof (cases "new_rows s p R W = []")
  case True
  then show ?thesis by (simp add: candidates_def)
next
  case False
  let ?N = "new_rows s p R W"
  from False obtain x where x: "x \<in> set ?N" by (cases ?N) auto
  have "candidates s ?N - set (R @ ?N) \<subset> candidates s W - set R"
    using candidates_new_rows [of s p R W] new_rows_candidates [of s p R W] x by auto
  moreover have "finite (candidates s W - set R)"
    by (simp add: candidates_def)
  ultimately have "card (candidates s ?N - set (R @ ?N)) < card (candidates s W - set R)"
    by (rule psubset_card_mono [rotated])
  then show ?thesis using False by simp
qed

lemma with_recursive_bounded_enough:
  "card (candidates s W - set R) + (if W = [] then 0 else 1) < n \<Longrightarrow>
     with_recursive_bounded n s p R W = Some (with_recursive s p R W)"
proof (induction s p R W arbitrary: n rule: with_recursive.induct)
  case (1 s p R W)
  from "1.prems" obtain m where n: "n = Suc m" by (cases n) auto
  show ?case
  proof (cases "W = []")
    case True
    then show ?thesis using n by (simp add: with_recursive.simps)
  next
    case False
    let ?N = "new_rows s p R W"
    have "card (candidates s ?N - set (R @ ?N)) + (if ?N = [] then 0 else 1) < m"
      using remaining_decreases [OF False, of s p R] "1.prems" False n by simp
    from "1.IH" [OF False this] show ?thesis
      using False n by (subst with_recursive.simps) simp
  qed
qed

lemma card_candidates_le: "card (candidates s [w]) \<le> length (decision_delegation s)"
proof -
  have "candidates s [w] = (\<lambda>d. dlg_row d w) ` set (decision_delegation s)"
    by (auto simp: candidates_def)
  then have "card (candidates s [w]) \<le> card (set (decision_delegation s))"
    by (simp add: card_image_le)
  also have "\<dots> \<le> length (decision_delegation s)"
    by (rule card_length)
  finally show ?thesis .
qed

lemma dlg_table_bounded:
  "with_recursive_bounded (length (decision_delegation s) + 2) s p
     [root_row inst] [root_row inst] = Some (dlg_table s p inst)"
proof -
  have "card (candidates s [root_row inst] - set [root_row inst])
          \<le> card (candidates s [root_row inst])"
    by (intro card_mono) (auto simp: candidates_def)
  then have "card (candidates s [root_row inst] - set [root_row inst])
               + (if [root_row inst] = [] then 0 else 1) < length (decision_delegation s) + 2"
    using card_candidates_le [of s "root_row inst"] by simp
  then have "with_recursive_bounded (length (decision_delegation s) + 2) s p
      [root_row inst] [root_row inst]
      = Some (with_recursive s p [root_row inst] [root_row inst])"
    by (rule with_recursive_bounded_enough)
  moreover have "remdups [root_row inst] = [root_row inst]"
    by simp
  ultimately show ?thesis
    unfolding dlg_table_def by (simp only:)
qed

lemma dlg_table_closed:
  "set (recursive_term s p (dlg_table s p inst)) \<subseteq> set (dlg_table s p inst)"
  unfolding dlg_table_def by (rule with_recursive_closed) auto

lemma dlg_table_distinct: "distinct (dlg_table s p inst)"
  unfolding dlg_table_def by (rule with_recursive_distinct) simp

lemma dlg_table_rows:
  assumes "r \<in> set (dlg_table s p inst)"
  shows "r = root_row inst \<or> r \<in> candidates s [root_row inst]"
proof (rule with_recursive_invariant
    [where I = "\<lambda>r. r = root_row inst \<or> r \<in> candidates s [root_row inst]"
       and R = "[root_row inst]" and W = "[root_row inst]" and s = s and p = p])
  show "r \<in> set (with_recursive s p [root_row inst] [root_row inst])"
    using assms by (simp add: dlg_table_def)
next
  fix d w
  assume "d \<in> set (decision_delegation s)"
    and "w = root_row inst \<or> w \<in> candidates s [root_row inst]"
  then show "dlg_row d w = root_row inst \<or> dlg_row d w \<in> candidates s [root_row inst]"
    by (auto simp: candidates_def dlg_row_def)
qed simp_all

lemma length_selected_rows:
  "length (selected_rows s p inst) \<le> length (decision_delegation s)"
proof -
  let ?sel = "filter (\<lambda>r. dlg_user_id r \<noteq> user_id inst) (dlg_table s p inst)"
  have "distinct ?sel"
    using dlg_table_distinct by simp
  then have "length ?sel = card (set ?sel)"
    by (rule distinct_card [symmetric])
  also have "card (set ?sel) \<le> card (candidates s [root_row inst])"
  proof (rule card_mono)
    show "finite (candidates s [root_row inst])"
      by (simp add: candidates_def)
    show "set ?sel \<subseteq> candidates s [root_row inst]"
    proof
      fix x assume "x \<in> set ?sel"
      then show "x \<in> candidates s [root_row inst]"
        using dlg_table_rows [of x s p inst] by (auto simp: root_row_def)
    qed
  qed
  also have "\<dots> \<le> length (decision_delegation s)"
    by (rule card_candidates_le)
  finally show ?thesis by (simp add: selected_rows_def)
qed


text \<open>Where the rows of \<open>dlg\<close> come from.\<close>

lemma delegations_unique_edge:
  assumes "delegations_unique s"
    and "d \<in> set (decision_delegation s)" "d' \<in> set (decision_delegation s)"
    and "leader_id d' = leader_id d" "follower_id d' = follower_id d"
  shows "d' = d"
proof -
  have "inj_on (\<lambda>d. (leader_id d, follower_id d)) (set (decision_delegation s))"
    using assms(1) by (simp add: delegations_unique_def distinct_map)
  then show ?thesis
    using assms(2-) by (auto dest: inj_onD)
qed

lemma with_recursive_extends: "set R \<subseteq> set (with_recursive s p R W)"
proof (induction s p R W rule: with_recursive.induct)
  case (1 s p R W)
  show ?case
  proof (cases "W = []")
    case True
    then show ?thesis by (simp add: with_recursive.simps)
  next
    case False
    from "1.IH" [OF False] show ?thesis
      using False by (subst with_recursive.simps) simp
  qed
qed

lemma dlg_table_root: "root_row inst \<in> set (dlg_table s p inst)"
  using with_recursive_extends [of "[root_row inst]" s p "[root_row inst]"]
  by (simp add: dlg_table_def)

lemma dlg_table_admitted:
  assumes "r \<in> set (dlg_table s p inst)"
  shows "r = root_row inst
     \<or> (\<exists>d\<in>set (decision_delegation s). \<exists>w\<in>set (dlg_table s p inst).
           dlg_user_id w = leader_id d \<and> extra_condition s p d
           \<and> no_vote s (follower_id d) (dlg_poll_id w) \<and> r = dlg_row d w)"
proof -
  let ?T = "dlg_table s p inst"
  have "r = root_row inst \<or> (r \<in> set ?T \<and> (\<exists>d\<in>set (decision_delegation s). \<exists>w\<in>set ?T.
           dlg_user_id w = leader_id d \<and> extra_condition s p d
           \<and> no_vote s (follower_id d) (dlg_poll_id w) \<and> r = dlg_row d w))"
  proof (rule with_recursive_invariant
      [where I = "\<lambda>r. r = root_row inst \<or> (r \<in> set ?T \<and>
          (\<exists>d\<in>set (decision_delegation s). \<exists>w\<in>set ?T.
           dlg_user_id w = leader_id d \<and> extra_condition s p d
           \<and> no_vote s (follower_id d) (dlg_poll_id w) \<and> r = dlg_row d w))"
         and R = "[root_row inst]" and W = "[root_row inst]" and s = s and p = p])
    show "r \<in> set (with_recursive s p [root_row inst] [root_row inst])"
      using assms by (simp add: dlg_table_def)
  next
    fix d w
    assume d: "d \<in> set (decision_delegation s)" "dlg_user_id w = leader_id d"
      "extra_condition s p d" "no_vote s (follower_id d) (dlg_poll_id w)"
      and w: "w = root_row inst \<or> (w \<in> set ?T \<and> (\<exists>d\<in>set (decision_delegation s). \<exists>w'\<in>set ?T.
           dlg_user_id w' = leader_id d \<and> extra_condition s p d
           \<and> no_vote s (follower_id d) (dlg_poll_id w') \<and> w = dlg_row d w'))"
    from w have wT: "w \<in> set ?T" using dlg_table_root by auto
    then have "dlg_row d w \<in> set (recursive_term s p ?T)"
      using d unfolding in_recursive_term by blast
    then have "dlg_row d w \<in> set ?T"
      using dlg_table_closed by blast
    then show "dlg_row d w = root_row inst \<or> (dlg_row d w \<in> set ?T \<and>
          (\<exists>d'\<in>set (decision_delegation s). \<exists>w'\<in>set ?T.
           dlg_user_id w' = leader_id d' \<and> extra_condition s p d'
           \<and> no_vote s (follower_id d') (dlg_poll_id w') \<and> dlg_row d w = dlg_row d' w'))"
      using d wT by blast
  qed simp_all
  then show ?thesis by blast
qed


lemma dlg_table_path:
  assumes "r \<in> set (dlg_table s p inst)"
  shows "r = root_row inst
     \<or> (dlg_poll_id r = poll_id inst \<and> dlg_choice_id r = choice_id inst
        \<and> (\<exists>q. delegation_path s (dlg_user_id r # q @ [user_id inst])
                \<and> list_all (\<lambda>x. no_vote s x (poll_id inst)) (dlg_user_id r # q)
                \<and> dlg_delegate_id r = Some (hd (q @ [user_id inst]))))"
    (is "?I r")
proof (rule with_recursive_invariant
    [where I = ?I and R = "[root_row inst]" and W = "[root_row inst]" and s = s and p = p])
  show "r \<in> set (with_recursive s p [root_row inst] [root_row inst])"
    using assms by (simp add: dlg_table_def)
next
  fix d w
  assume d: "d \<in> set (decision_delegation s)" "dlg_user_id w = leader_id d"
    "no_vote s (follower_id d) (dlg_poll_id w)"
    and w: "?I w"
  have edge: "list_ex (\<lambda>e. follower_id e = follower_id d \<and> leader_id e = dlg_user_id w)
                (decision_delegation s)"
    using d(1,2) by (auto simp: list_ex_iff)
  from w show "?I (dlg_row d w)"
  proof
    assume "w = root_row inst"
    then have "delegation_path s (follower_id d # [] @ [user_id inst])"
      "list_all (\<lambda>x. no_vote s x (poll_id inst)) (follower_id d # [])"
      using edge d(3) by (simp_all add: root_row_def)
    then show ?thesis
      using \<open>w = root_row inst\<close> d(2) unfolding dlg_row_def root_row_def
      by (intro disjI2 conjI exI [of _ "[]"]) simp_all
  next
    assume "dlg_poll_id w = poll_id inst \<and> dlg_choice_id w = choice_id inst
        \<and> (\<exists>q. delegation_path s (dlg_user_id w # q @ [user_id inst])
                \<and> list_all (\<lambda>x. no_vote s x (poll_id inst)) (dlg_user_id w # q)
                \<and> dlg_delegate_id w = Some (hd (q @ [user_id inst])))"
    then obtain q where pw: "dlg_poll_id w = poll_id inst" "dlg_choice_id w = choice_id inst"
      and q: "delegation_path s (dlg_user_id w # q @ [user_id inst])"
        "list_all (\<lambda>x. no_vote s x (poll_id inst)) (dlg_user_id w # q)"
      by blast
    have "delegation_path s (follower_id d # (dlg_user_id w # q) @ [user_id inst])"
      "list_all (\<lambda>x. no_vote s x (poll_id inst)) (follower_id d # (dlg_user_id w # q))"
      using edge q d(3) pw by simp_all
    then show ?thesis
      using pw d(2) unfolding dlg_row_def
      by (intro disjI2 conjI exI [of _ "dlg_user_id w # q"]) simp_all
  qed
qed simp_all


section \<open>Checks of set\_vote on the poll and the choice\<close>

lemmas ex_defs = ex_poll_def ex_closed_poll_def ex_yes_def ex_no_def ex_chain_def ex_direct_def

text \<open>
  Claim C8. A call of \<open>set_vote\<close> on a poll that is not open fails with \<open>PollClosed\<close>
  and leaves the tables as they were; on an open poll, a choice that is not a choice of
  the poll makes it fail with \<open>InvalidChoice\<close>, again with the tables as they were; a
  call that passes both tests raises neither of the two.
\<close>

theorem set_vote_checks_poll_and_choice:
  "(\<not> is_open self \<longrightarrow> set_vote s self u ch delegate secure = (Inl PollClosed, s))
   \<and> (is_open self \<and> \<not> belongs_to self ch \<longrightarrow>
        set_vote s self u ch delegate secure = (Inl InvalidChoice, s))
   \<and> (is_open self \<and> belongs_to self ch \<longrightarrow>
        fst (set_vote s self u ch delegate secure) \<noteq> Inl PollClosed
        \<and> fst (set_vote s self u ch delegate secure) \<noteq> Inl InvalidChoice)"
proof (intro conjI impI)
  assume "\<not> is_open self"
  then show "set_vote s self u ch delegate secure = (Inl PollClosed, s)"
    by (rule set_vote_closed)
next
  assume "is_open self \<and> \<not> belongs_to self ch"
  then show "set_vote s self u ch delegate secure = (Inl InvalidChoice, s)"
    by (simp add: set_vote_invalid)
next
  assume a: "is_open self \<and> belongs_to self ch"
  show "fst (set_vote s self u ch delegate secure) \<noteq> Inl PollClosed"
    using set_vote_open_error [of self ch s u delegate secure PollClosed] a by auto
  show "fst (set_vote s self u ch delegate secure) \<noteq> Inl InvalidChoice"
    using set_vote_open_error [of self ch s u delegate secure InvalidChoice] a by auto
qed

theorem set_vote_checks_poll_and_choice_witness:
  "\<not> is_open ex_closed_poll
   \<and> set_vote ex_chain ex_closed_poll 1 (ChoiceObj ex_yes) None True = (Inl PollClosed, ex_chain)
   \<and> is_open ex_poll \<and> \<not> belongs_to ex_poll OtherObj
   \<and> set_vote ex_chain ex_poll 1 OtherObj None True = (Inl InvalidChoice, ex_chain)
   \<and> belongs_to ex_poll (ChoiceObj ex_yes)
   \<and> fst (set_vote ex_chain ex_poll 1 (ChoiceObj ex_yes) None True) \<noteq> Inl PollClosed
   \<and> fst (set_vote ex_chain ex_poll 1 (ChoiceObj ex_yes) None True) \<noteq> Inl InvalidChoice"
proof -
  have h: "\<not> is_open ex_closed_poll" "is_open ex_poll" "\<not> belongs_to ex_poll OtherObj"
    "belongs_to ex_poll (ChoiceObj ex_yes)"
    by (simp_all add: ex_defs belongs_to_def)
  show ?thesis
    using h set_vote_checks_poll_and_choice [of ex_closed_poll ex_chain 1 "ChoiceObj ex_yes" None True]
      set_vote_checks_poll_and_choice [of ex_poll ex_chain 1 OtherObj None True]
      set_vote_checks_poll_and_choice [of ex_poll ex_chain 1 "ChoiceObj ex_yes" None True]
    by simp
qed


section \<open>Delegation to oneself\<close>

text \<open>
  Claim C9. Saving a delegation whose follower is its leader fails with
  \<open>CantDelegateToSelf\<close> before any row is written; a save that succeeds, and every
  call of \<open>set_vote\<close>, keeps the delegation table free of such rows.
\<close>

theorem delegation_to_self_fails:
  "(leader_id inst = follower_id inst \<longrightarrow> delegation_save s inst = Inl CantDelegateToSelf)
   \<and> (no_self_delegation s \<longrightarrow>
        (\<forall>s'. delegation_save s inst = Inr s' \<longrightarrow> no_self_delegation s'))
   \<and> (no_self_delegation s \<longrightarrow>
        no_self_delegation (snd (set_vote s self u ch delegate secure)))"
  by (auto simp: delegation_save_def prevent_delegation_to_self_def no_self_delegation_def
      set_vote_delegations split: if_splits)

theorem delegation_to_self_fails_witness:
  "leader_id \<lparr>d_id = 4, follower_id = 3, leader_id = 3\<rparr>
     = follower_id \<lparr>d_id = 4, follower_id = 3, leader_id = 3\<rparr>
   \<and> delegation_save ex_chain \<lparr>d_id = 4, follower_id = 3, leader_id = 3\<rparr>
        = Inl CantDelegateToSelf
   \<and> no_self_delegation ex_chain
   \<and> delegation_save ex_chain \<lparr>d_id = 4, follower_id = 4, leader_id = 3\<rparr>
        = Inr (ex_chain\<lparr>decision_delegation := decision_delegation ex_chain
                 @ [\<lparr>d_id = 4, follower_id = 4, leader_id = 3\<rparr>]\<rparr>)
   \<and> no_self_delegation (ex_chain\<lparr>decision_delegation := decision_delegation ex_chain
                 @ [\<lparr>d_id = 4, follower_id = 4, leader_id = 3\<rparr>]\<rparr>)
   \<and> no_self_delegation (snd (set_vote ex_chain ex_poll 1 (ChoiceObj ex_yes) None True))"
proof -
  have e: "leader_id \<lparr>d_id = 4, follower_id = 3, leader_id = 3\<rparr>
     = follower_id \<lparr>d_id = 4, follower_id = 3, leader_id = 3\<rparr>"
    by simp
  have h: "no_self_delegation ex_chain"
    by code_simp
  have sv: "delegation_save ex_chain \<lparr>d_id = 4, follower_id = 4, leader_id = 3\<rparr>
        = Inr (ex_chain\<lparr>decision_delegation := decision_delegation ex_chain
                 @ [\<lparr>d_id = 4, follower_id = 4, leader_id = 3\<rparr>]\<rparr>)"
    by code_simp
  note t1 = delegation_to_self_fails [of "\<lparr>d_id = 4, follower_id = 3, leader_id = 3\<rparr>" ex_chain]
  note t2 = delegation_to_self_fails [of "\<lparr>d_id = 4, follower_id = 4, leader_id = 3\<rparr>" ex_chain
        ex_poll 1 "ChoiceObj ex_yes" None True]
  have a: "delegation_save ex_chain \<lparr>d_id = 4, follower_id = 3, leader_id = 3\<rparr>
        = Inl CantDelegateToSelf"
    using t1 e by blast
  have b: "no_self_delegation (ex_chain\<lparr>decision_delegation := decision_delegation ex_chain
                 @ [\<lparr>d_id = 4, follower_id = 4, leader_id = 3\<rparr>]\<rparr>)"
    using t2 h sv by blast
  have c: "no_self_delegation (snd (set_vote ex_chain ex_poll 1 (ChoiceObj ex_yes) None True))"
    using t2 h by blast
  show ?thesis
    using e h sv a b c by (intro conjI)
qed


section \<open>get\_user\_choice\<close>

text \<open>
  Claim C10. In a vote table that satisfies its uniqueness constraint,
  \<open>get_user_choice\<close> returns the choice of the user's vote for the poll when there is
  one, and returns \<open>None\<close>, without raising, when there is none.
\<close>

theorem get_user_choice_result:
  assumes "votes_unique s"
  shows "(\<forall>v\<in>set (decision_vote s). poll_id v = poll_pk self \<and> user_id v = u \<longrightarrow>
            get_user_choice s self u = Inr (Some (choice_id v)))
       \<and> ((\<forall>v\<in>set (decision_vote s). \<not> (poll_id v = poll_pk self \<and> user_id v = u)) \<longrightarrow>
            get_user_choice s self u = Inr None)"
proof (intro conjI ballI impI)
  fix v assume "v \<in> set (decision_vote s)" "poll_id v = poll_pk self \<and> user_id v = u"
  then have "votes_get s self u = Inr v"
    using assms by (intro votes_get_unique) auto
  then show "get_user_choice s self u = Inr (Some (choice_id v))"
    by (simp add: get_user_choice_def get_vote_def)
next
  assume "\<forall>v\<in>set (decision_vote s). \<not> (poll_id v = poll_pk self \<and> user_id v = u)"
  then have "votes_get s self u = Inl DoesNotExist"
    by (simp add: votes_get_none)
  then show "get_user_choice s self u = Inr None"
    by (simp add: get_user_choice_def get_vote_def)
qed

theorem get_user_choice_result_witness:
  "votes_unique ex_direct
   \<and> \<lparr>user_id = 2, poll_id = 7, choice_id = 6, delegate_id = None\<rparr> \<in> set (decision_vote ex_direct)
   \<and> get_user_choice ex_direct ex_poll 2 = Inr (Some 6)
   \<and> \<not> list_ex (\<lambda>v. poll_id v = poll_pk ex_poll \<and> user_id v = 1) (decision_vote ex_direct)
   \<and> get_user_choice ex_direct ex_poll 1 = Inr None"
proof -
  have h: "votes_unique ex_direct"
    by (simp add: ex_defs votes_unique_def)
  have n: "\<forall>v\<in>set (decision_vote ex_direct). \<not> (poll_id v = poll_pk ex_poll \<and> user_id v = 1)"
    by (simp add: ex_defs)
  show ?thesis
    using h n get_user_choice_result [OF h, of ex_poll 2] get_user_choice_result [OF h, of ex_poll 1]
    by (simp add: ex_defs list_ex_iff)
qed


section \<open>The overwrite rule of set\_vote\<close>

text \<open>
  Claim C2 fails for unsecured submissions. The guard of the overwrite rule is
  \<open>secure and delegate and vote.delegate is None\<close>. With \<open>secure\<close> false it does
  not fire: the call below replaces the direct vote of user 2 by a vote with
  delegate 1.
\<close>

theorem unsecured_submission_overwrites_direct_vote:
  "votes_get ex_direct ex_poll 2
     = Inr \<lparr>user_id = 2, poll_id = 7, choice_id = 6, delegate_id = None\<rparr>
   \<and> fst (set_vote ex_direct ex_poll 2 (ChoiceObj ex_yes) (Some 1) False)
     = Inr \<lparr>user_id = 2, poll_id = 7, choice_id = 5, delegate_id = Some 1\<rparr>
   \<and> votes_get (snd (set_vote ex_direct ex_poll 2 (ChoiceObj ex_yes) (Some 1) False)) ex_poll 2
     = Inr \<lparr>user_id = 2, poll_id = 7, choice_id = 5, delegate_id = Some 1\<rparr>"
  by code_simp

text \<open>
  Claim C2, for secured submissions. When the user's vote for the poll is a direct vote,
  no call of \<open>set_vote\<close> with \<open>secure\<close> true turns it into a vote with a delegate:
  after the call the user's vote still has a null delegate, and when the call names a
  delegate the vote is the one that was there before.
\<close>

theorem secured_submission_keeps_direct_vote:
  assumes "votes_get s self u = Inr v0" and "delegate_id v0 = None"
  shows "\<exists>v. votes_get (snd (set_vote s self u ch delegate True)) self u = Inr v
             \<and> delegate_id v = None \<and> (delegate \<noteq> None \<longrightarrow> v = v0)"
proof (cases "is_open self \<and> belongs_to self ch")
  case False
  then have "snd (set_vote s self u ch delegate True) = s"
    using set_vote_closed [of self s u ch delegate True]
      set_vote_invalid [of self ch s u delegate True] by (cases "is_open self") auto
  then show ?thesis using assms by simp
next
  case True
  then obtain c where ch: "ch = ChoiceObj c" and c: "choice_poll c = poll_pk self"
    by (auto simp: belongs_to_def split: choice_arg.splits)
  show ?thesis
  proof (cases delegate)
    case (Some l)
    have "snd (set_vote s self u ch (Some l) True) = s"
      using True assms ch c
      by (auto simp: set_vote_def split: sum.splits error.splits)
    then show ?thesis using assms Some by simp
  next
    case None
    let ?v = "v0\<lparr>choice_id := choice_pk c, delegate_id := None\<rparr>"
    let ?s = "s\<lparr>decision_vote :=
                  map (\<lambda>r. if poll_id r = poll_pk self \<and> user_id r = u then ?v else r)
                    (decision_vote s)\<rparr>"
    have "set_vote s self u ch None True = post_save ?s self ?v"
      using True assms ch c by (simp add: set_vote_def Let_def)
    moreover have "user_id ?v = u"
      using votes_get_InrD(2) [OF assms(1)] by simp
    ultimately have "votes_get (snd (set_vote s self u ch None True)) self u
                       = votes_get ?s self u"
      by (simp add: post_save_votes_get)
    also have "\<dots> = Inr ?v"
      by (rule votes_get_update [OF assms(1)])
    finally show ?thesis using None by simp
  qed
qed

theorem secured_submission_keeps_direct_vote_witness:
  "votes_get ex_direct ex_poll 2
     = Inr \<lparr>user_id = 2, poll_id = 7, choice_id = 6, delegate_id = None\<rparr>
   \<and> delegate_id \<lparr>user_id = 2, poll_id = 7, choice_id = 6, delegate_id = None\<rparr> = None
   \<and> votes_get (snd (set_vote ex_direct ex_poll 2 (ChoiceObj ex_yes) (Some 1) True)) ex_poll 2
     = Inr \<lparr>user_id = 2, poll_id = 7, choice_id = 6, delegate_id = None\<rparr>"
proof -
  have g: "votes_get ex_direct ex_poll 2
     = Inr \<lparr>user_id = 2, poll_id = 7, choice_id = 6, delegate_id = None\<rparr>"
    by code_simp
  have n: "delegate_id \<lparr>user_id = 2, poll_id = 7, choice_id = 6, delegate_id = None\<rparr> = None"
    by simp
  have "votes_get (snd (set_vote ex_direct ex_poll 2 (ChoiceObj ex_yes) (Some 1) True)) ex_poll 2
     = Inr \<lparr>user_id = 2, poll_id = 7, choice_id = 6, delegate_id = None\<rparr>"
    using secured_submission_keeps_direct_vote [OF g n, of "ChoiceObj ex_yes" "Some 1"]
    by auto
  with g n show ?thesis by (intro conjI)
qed

text \<open>
  Claim C6 fails on a closed poll. The test of the poll comes first: there the secured
  delegated submission against a direct vote fails with \<open>PollClosed\<close>, not with the
  exception of the overwrite rule.
\<close>

theorem secured_submission_on_closed_poll:
  "votes_get ex_direct ex_closed_poll 2
     = Inr \<lparr>user_id = 2, poll_id = 7, choice_id = 6, delegate_id = None\<rparr>
   \<and> set_vote ex_direct ex_closed_poll 2 (ChoiceObj ex_yes) (Some 1) True
     = (Inl PollClosed, ex_direct)
   \<and> fst (set_vote ex_direct ex_closed_poll 2 (ChoiceObj ex_yes) (Some 1) True)
     \<noteq> Inl Exception"
  by code_simp

text \<open>
  Claim C6, with the exceptions the code raises. A call of \<open>set_vote\<close> with \<open>secure\<close>
  true and a delegate, for a user whose vote for the poll is a direct vote, always
  fails and leaves the tables as they were. The exception is \<open>PollClosed\<close> exactly
  when the poll is closed, \<open>InvalidChoice\<close> exactly when the poll is open and the
  choice is not one of its choices, and otherwise, the delegation tables satisfying
  their uniqueness constraints, the built-in \<open>Exception\<close>.
\<close>

theorem secured_delegated_submission_on_direct_vote:
  assumes "votes_get s self u = Inr v0" and "delegate_id v0 = None"
  shows "\<exists>e. set_vote s self u ch (Some l) True = (Inl e, s)
             \<and> (e = PollClosed \<or> e = InvalidChoice \<or> e = Exception
                  \<or> e = MultipleObjectsReturned)
             \<and> (e = PollClosed \<longleftrightarrow> \<not> is_open self)
             \<and> (e = InvalidChoice \<longleftrightarrow> is_open self \<and> \<not> belongs_to self ch)
             \<and> (is_open self \<and> belongs_to self ch \<and> delegations_unique s \<longrightarrow> e = Exception)"
proof (cases "is_open self")
  case False
  then show ?thesis by (simp add: set_vote_closed)
next
  case op: True
  show ?thesis
  proof (cases "belongs_to self ch")
    case False
    then show ?thesis using op by (simp add: set_vote_invalid)
  next
    case True
    show ?thesis
    proof (cases "delegation_get s self l u")
      case (Inr d)
      then show ?thesis
        using set_vote_secured(3) [OF op True Inr assms] op True by simp
    next
      case (Inl e)
      then consider "e = DoesNotExist" | "e = MultipleObjectsReturned"
        using delegation_get_error by blast
      then show ?thesis
      proof cases
        case 1
        then show ?thesis
          using set_vote_secured(1) [OF op True] Inl op True by simp
      next
        case 2
        then show ?thesis
          using set_vote_secured(2) [OF op True] Inl op True
            delegation_get_not_Multiple [of s self l u] by auto
      qed
    qed
  qed
qed

theorem secured_delegated_submission_on_direct_vote_witness:
  "votes_get ex_direct ex_poll 2
     = Inr \<lparr>user_id = 2, poll_id = 7, choice_id = 6, delegate_id = None\<rparr>
   \<and> delegate_id \<lparr>user_id = 2, poll_id = 7, choice_id = 6, delegate_id = None\<rparr> = None
   \<and> is_open ex_poll \<and> belongs_to ex_poll (ChoiceObj ex_yes) \<and> delegations_unique ex_direct
   \<and> set_vote ex_direct ex_poll 2 (ChoiceObj ex_yes) (Some 1) True = (Inl Exception, ex_direct)"
proof -
  have g: "votes_get ex_direct ex_poll 2
     = Inr \<lparr>user_id = 2, poll_id = 7, choice_id = 6, delegate_id = None\<rparr>"
    by code_simp
  have n: "delegate_id \<lparr>user_id = 2, poll_id = 7, choice_id = 6, delegate_id = None\<rparr> = None"
    by simp
  have h: "is_open ex_poll" "belongs_to ex_poll (ChoiceObj ex_yes)" "delegations_unique ex_direct"
    by (simp_all add: ex_defs belongs_to_def delegations_unique_def)
  have "set_vote ex_direct ex_poll 2 (ChoiceObj ex_yes) (Some 1) True = (Inl Exception, ex_direct)"
    using secured_delegated_submission_on_direct_vote [OF g n, of "ChoiceObj ex_yes" 1] h
    by auto
  with g n h show ?thesis by (intro conjI)
qed


section \<open>The authorization check of set\_vote\<close>

text \<open>
  Claim C7 fails in both directions, at two calls with \<open>secure\<close> true and a
  delegate. In the first no delegation from user 4 to user 1 exists, and the call fails
  with \<open>PollClosed\<close>, the poll being closed. In the second the delegation from user 2
  to user 1 exists and matches the poll, and the call fails with \<open>Exception\<close> all
  the same, raised by the overwrite rule.
\<close>

theorem exception_of_secured_submission_not_authorization:
  "\<not> authorized ex_chain ex_closed_poll 1 4
   \<and> fst (set_vote ex_chain ex_closed_poll 4 (ChoiceObj ex_yes) (Some 1) True) = Inl PollClosed
   \<and> authorized ex_direct ex_poll 1 2
   \<and> fst (set_vote ex_direct ex_poll 2 (ChoiceObj ex_yes) (Some 1) True) = Inl Exception"
  by (simp add: ex_defs authorized_def scope_matches_def scope_def set_vote_def
      delegation_get_def delegation_join_def votes_get_def)

text \<open>
  Claim C7, for an open poll, a choice of the poll and delegation tables that satisfy
  their uniqueness constraints. A call with \<open>secure\<close> true and a delegate fails with
  \<open>Exception\<close> and leaves the tables as they were when no delegation from the user to
  the delegate matches the poll; it fails with \<open>Exception\<close> exactly when there is no
  such delegation or the user's vote is a direct vote. A call with a null delegate, or
  with \<open>secure\<close> false, never raises \<open>Exception\<close>.
\<close>

theorem secured_submission_authorization_check:
  assumes "is_open self" and "belongs_to self ch" and "delegations_unique s"
  shows "(\<not> authorized s self l u \<longrightarrow>
            set_vote s self u ch (Some l) True = (Inl Exception, s))
       \<and> (fst (set_vote s self u ch (Some l) True) = Inl Exception \<longleftrightarrow>
            \<not> authorized s self l u
            \<or> (\<exists>v0. votes_get s self u = Inr v0 \<and> delegate_id v0 = None))
       \<and> fst (set_vote s self u ch None secure) \<noteq> Inl Exception
       \<and> fst (set_vote s self u ch delegate False) \<noteq> Inl Exception"
proof -
  note sec = set_vote_secured [OF assms(1,2)]
  have un: "set_vote s self u ch (Some l) True = (Inl Exception, s)"
    if "\<not> authorized s self l u"
    using that sec(1) by (simp add: delegation_get_DoesNotExist)
  have au: "fst (set_vote s self u ch (Some l) True) = Inl Exception \<longleftrightarrow>
              (\<exists>v0. votes_get s self u = Inr v0 \<and> delegate_id v0 = None)"
    if a: "authorized s self l u"
  proof -
    from a have "delegation_get s self l u \<noteq> Inl DoesNotExist"
      by (simp add: delegation_get_DoesNotExist)
    moreover have "delegation_get s self l u \<noteq> Inl MultipleObjectsReturned"
      using assms(3) by (rule delegation_get_not_Multiple)
    ultimately obtain d where d: "delegation_get s self l u = Inr d"
      using delegation_get_error [of s self l u] by (cases "delegation_get s self l u") auto
    show ?thesis
    proof (cases "votes_get s self u")
      case (Inl e)
      then show ?thesis using sec(5) [OF d Inl] by simp
    next
      case (Inr v0)
      then show ?thesis
        using sec(3) [OF d Inr] sec(4) [OF d Inr] by (cases "delegate_id v0") auto
    qed
  qed
  show ?thesis
    using un au set_vote_no_check [of None secure s self u ch]
      set_vote_no_check [of delegate False s self u ch]
    by (cases "authorized s self l u") auto
qed

theorem secured_submission_authorization_check_witness:
  "is_open ex_poll \<and> belongs_to ex_poll (ChoiceObj ex_yes) \<and> delegations_unique ex_chain
   \<and> \<not> authorized ex_chain ex_poll 1 4
   \<and> set_vote ex_chain ex_poll 4 (ChoiceObj ex_yes) (Some 1) True = (Inl Exception, ex_chain)
   \<and> authorized ex_chain ex_poll 1 2
   \<and> votes_get ex_chain ex_poll 2 = Inl DoesNotExist
   \<and> fst (set_vote ex_chain ex_poll 2 (ChoiceObj ex_yes) (Some 1) True) \<noteq> Inl Exception"
proof -
  have h: "is_open ex_poll" "belongs_to ex_poll (ChoiceObj ex_yes)" "delegations_unique ex_chain"
    by (simp_all add: ex_defs belongs_to_def delegations_unique_def)
  have a: "\<not> authorized ex_chain ex_poll 1 4" "authorized ex_chain ex_poll 1 2"
    by (simp_all add: ex_defs authorized_def scope_matches_def scope_def)
  have g: "votes_get ex_chain ex_poll 2 = Inl DoesNotExist"
    by code_simp
  note t = secured_submission_authorization_check [OF h]
  have r1: "set_vote ex_chain ex_poll 4 (ChoiceObj ex_yes) (Some 1) True = (Inl Exception, ex_chain)"
    using t [of 1 4] a(1) by blast
  have r2: "fst (set_vote ex_chain ex_poll 2 (ChoiceObj ex_yes) (Some 1) True) \<noteq> Inl Exception"
    using t [of 1 2] a(2) g by auto
  from h a g r1 r2 show ?thesis by (intro conjI)
qed


section \<open>Propagation\<close>

text \<open>
  Two scenarios. On the chain, the vote of A gives B and C a vote with delegate A and D
  a vote with delegate B. With B's delegation scoped to "Finance", the vote of A on the
  "Health" poll reaches C only.
\<close>

lemma chain_scenario:
  "set_vote ex_chain ex_poll 1 (ChoiceObj ex_yes) None True
     = (Inr ex_vote1,
        ex_chain\<lparr>decision_vote :=
          [ex_vote1,
           \<lparr>user_id = 2, poll_id = 7, choice_id = 5, delegate_id = Some 1\<rparr>,
           \<lparr>user_id = 3, poll_id = 7, choice_id = 5, delegate_id = Some 1\<rparr>,
           \<lparr>user_id = 4, poll_id = 7, choice_id = 5, delegate_id = Some 2\<rparr>]\<rparr>)"
  by code_simp

lemma scoped_scenario:
  "propagate_vote ex_scoped ex_health_poll ex_health_vote
     = Inr (ex_scoped\<lparr>decision_vote :=
          [ex_health_vote,
           \<lparr>user_id = 3, poll_id = 8, choice_id = 9, delegate_id = Some 1\<rparr>]\<rparr>)"
  by code_simp

text \<open>
  Claim C1. Let user \<open>f\<close> have a vote for the poll of the saved vote \<open>inst\<close> when
  \<open>propagate_vote\<close> runs. Then the run, when it writes, appends the selected rows to
  \<open>decision_vote\<close> and leaves every row that was there as it was; no selected row is a
  row of \<open>f\<close>; and every user who receives a row has a delegation path to the user of
  \<open>inst\<close> on which \<open>f\<close> does not lie, so nobody is reached through \<open>f\<close> alone.
\<close>

theorem propagation_cutoff:
  assumes "\<exists>v\<in>set (decision_vote s). user_id v = f \<and> poll_id v = poll_id inst"
  shows "(\<forall>s'. propagate_vote s p inst = Inr s' \<longrightarrow>
            decision_vote s' = decision_vote s @ selected_rows s p inst)
       \<and> (\<forall>v\<in>set (selected_rows s p inst).
            poll_id v = poll_id inst \<and> user_id v \<noteq> f
            \<and> (\<exists>q. delegation_path s (user_id v # q @ [user_id inst])
                    \<and> f \<notin> set (user_id v # q)))"
proof (intro conjI allI impI ballI)
  fix s' assume "propagate_vote s p inst = Inr s'"
  then show "decision_vote s' = decision_vote s @ selected_rows s p inst"
    by (auto dest: propagate_vote_Inr)
next
  fix v assume "v \<in> set (selected_rows s p inst)"
  then obtain r where r: "r \<in> set (dlg_table s p inst)" "dlg_user_id r \<noteq> user_id inst"
    and v: "user_id v = dlg_user_id r" "poll_id v = dlg_poll_id r"
    by (auto simp: selected_rows_def)
  from r(2) have "r \<noteq> root_row inst"
    by (auto simp: root_row_def)
  with dlg_table_path [OF r(1)] obtain q where pr: "dlg_poll_id r = poll_id inst"
    and q: "delegation_path s (dlg_user_id r # q @ [user_id inst])"
      "list_all (\<lambda>x. no_vote s x (poll_id inst)) (dlg_user_id r # q)"
    by blast
  have "\<not> no_vote s f (poll_id inst)"
    using assms by (auto simp: no_vote_def filter_empty_conv)
  then have f: "f \<notin> set (dlg_user_id r # q)"
    using q(2) by (auto simp: list_all_iff)
  show "poll_id v = poll_id inst" using v pr by simp
  show "user_id v \<noteq> f" using f v by auto
  show "\<exists>q. delegation_path s (user_id v # q @ [user_id inst]) \<and> f \<notin> set (user_id v # q)"
    using q(1) f v by auto
qed

theorem propagation_cutoff_witness:
  "list_ex (\<lambda>v. user_id v = 2 \<and> poll_id v = poll_id ex_vote1) (decision_vote ex_cutoff)
   \<and> propagate_vote ex_cutoff ex_poll ex_vote1
     = Inr (ex_cutoff\<lparr>decision_vote := [ex_vote2, ex_vote1,
              \<lparr>user_id = 3, poll_id = 7, choice_id = 5, delegate_id = Some 1\<rparr>]\<rparr>)
   \<and> decision_vote (ex_cutoff\<lparr>decision_vote := [ex_vote2, ex_vote1,
              \<lparr>user_id = 3, poll_id = 7, choice_id = 5, delegate_id = Some 1\<rparr>]\<rparr>)
     = decision_vote ex_cutoff @ selected_rows ex_cutoff ex_poll ex_vote1
   \<and> \<not> list_ex (\<lambda>v. user_id v = 2) (selected_rows ex_cutoff ex_poll ex_vote1)
   \<and> selected_rows ex_cutoff ex_poll ex_vote1
     = [\<lparr>user_id = 3, poll_id = 7, choice_id = 5, delegate_id = Some 1\<rparr>]"
proof -
  have h: "list_ex (\<lambda>v. user_id v = 2 \<and> poll_id v = poll_id ex_vote1) (decision_vote ex_cutoff)"
    by code_simp
  have r: "propagate_vote ex_cutoff ex_poll ex_vote1
     = Inr (ex_cutoff\<lparr>decision_vote := [ex_vote2, ex_vote1,
              \<lparr>user_id = 3, poll_id = 7, choice_id = 5, delegate_id = Some 1\<rparr>]\<rparr>)"
    by code_simp
  have e: "selected_rows ex_cutoff ex_poll ex_vote1
     = [\<lparr>user_id = 3, poll_id = 7, choice_id = 5, delegate_id = Some 1\<rparr>]"
    by code_simp
  have "\<exists>v\<in>set (decision_vote ex_cutoff). user_id v = 2 \<and> poll_id v = poll_id ex_vote1"
    using h by (simp add: list_ex_iff)
  note t = propagation_cutoff [OF this, of ex_poll]
  have a: "decision_vote (ex_cutoff\<lparr>decision_vote := [ex_vote2, ex_vote1,
              \<lparr>user_id = 3, poll_id = 7, choice_id = 5, delegate_id = Some 1\<rparr>]\<rparr>)
     = decision_vote ex_cutoff @ selected_rows ex_cutoff ex_poll ex_vote1"
    using t r by blast
  have b: "\<not> list_ex (\<lambda>v. user_id v = 2) (selected_rows ex_cutoff ex_poll ex_vote1)"
    using t unfolding list_ex_iff by blast
  from h r a b e show ?thesis by (intro conjI)
qed

text \<open>
  Claim C3. Take a delegation of a table that satisfies its uniqueness constraints, a
  row of \<open>dlg\<close> for its leader, and let its follower have no vote for the poll. The
  row of the follower through this delegation is admitted to \<open>dlg\<close> exactly when the
  scope of the delegation matches the poll, which is what \<open>extra_condition\<close> tests:
  an empty scope matches every poll, and a scope that is not empty matches exactly the
  polls whose category it holds, so no poll without a category.
\<close>

theorem propagation_category_scope:
  assumes "delegations_unique s" and "d \<in> set (decision_delegation s)"
    and "w \<in> set (dlg_table s p inst)" and "dlg_user_id w = leader_id d"
    and "no_vote s (follower_id d) (dlg_poll_id w)"
  shows "(dlg_row d w \<in> set (dlg_table s p inst) \<longleftrightarrow> scope_matches s p d)
       \<and> (extra_condition s p d \<longleftrightarrow> scope_matches s p d)
       \<and> (scope s d = {} \<longrightarrow> scope_matches s p d)
       \<and> (scope s d \<noteq> {} \<longrightarrow>
            (scope_matches s p d \<longleftrightarrow> (\<exists>c. category p = Some c \<and> c \<in> scope s d)))"
proof (intro conjI)
  show "dlg_row d w \<in> set (dlg_table s p inst) \<longleftrightarrow> scope_matches s p d"
  proof
    assume "dlg_row d w \<in> set (dlg_table s p inst)"
    moreover have "dlg_row d w \<noteq> root_row inst"
      by (simp add: dlg_row_def root_row_def)
    ultimately obtain d' w' where d': "d' \<in> set (decision_delegation s)"
      "extra_condition s p d'" "dlg_row d w = dlg_row d' w'"
      using dlg_table_admitted by blast
    from d'(3) have "leader_id d' = leader_id d" "follower_id d' = follower_id d"
      by (simp_all add: dlg_row_def)
    then have "d' = d"
      using assms(1,2) d'(1) by (intro delegations_unique_edge)
    then show "scope_matches s p d"
      using d'(2) by (simp add: extra_condition_iff)
  next
    assume "scope_matches s p d"
    then have "dlg_row d w \<in> set (recursive_term s p (dlg_table s p inst))"
      using assms(2-) unfolding in_recursive_term extra_condition_iff by blast
    then show "dlg_row d w \<in> set (dlg_table s p inst)"
      using dlg_table_closed by blast
  qed
  show "extra_condition s p d \<longleftrightarrow> scope_matches s p d"
    by (rule extra_condition_iff)
  show "scope s d = {} \<longrightarrow> scope_matches s p d"
    by (simp add: scope_matches_def)
  show "scope s d \<noteq> {} \<longrightarrow>
          (scope_matches s p d \<longleftrightarrow> (\<exists>c. category p = Some c \<and> c \<in> scope s d))"
    by (auto simp: scope_matches_def split: option.splits)
qed

theorem propagation_category_scope_witness:
  "delegations_unique ex_scoped
   \<and> \<lparr>d_id = 2, follower_id = 3, leader_id = 1\<rparr> \<in> set (decision_delegation ex_scoped)
   \<and> \<lparr>d_id = 1, follower_id = 2, leader_id = 1\<rparr> \<in> set (decision_delegation ex_scoped)
   \<and> root_row ex_health_vote \<in> set (dlg_table ex_scoped ex_health_poll ex_health_vote)
   \<and> dlg_user_id (root_row ex_health_vote) = 1
   \<and> no_vote ex_scoped 3 (dlg_poll_id (root_row ex_health_vote))
   \<and> no_vote ex_scoped 2 (dlg_poll_id (root_row ex_health_vote))
   \<and> scope_matches ex_scoped ex_health_poll \<lparr>d_id = 2, follower_id = 3, leader_id = 1\<rparr>
   \<and> dlg_row \<lparr>d_id = 2, follower_id = 3, leader_id = 1\<rparr> (root_row ex_health_vote)
        \<in> set (dlg_table ex_scoped ex_health_poll ex_health_vote)
   \<and> \<not> scope_matches ex_scoped ex_health_poll \<lparr>d_id = 1, follower_id = 2, leader_id = 1\<rparr>
   \<and> dlg_row \<lparr>d_id = 1, follower_id = 2, leader_id = 1\<rparr> (root_row ex_health_vote)
        \<notin> set (dlg_table ex_scoped ex_health_poll ex_health_vote)
   \<and> \<not> extra_condition ex_scoped ex_poll \<lparr>d_id = 1, follower_id = 2, leader_id = 1\<rparr>"
proof -
  let ?d1 = "\<lparr>d_id = 1, follower_id = 2, leader_id = 1\<rparr>"
  let ?d2 = "\<lparr>d_id = 2, follower_id = 3, leader_id = 1\<rparr>"
  have u: "delegations_unique ex_scoped"
    by (simp add: ex_scoped_def delegations_unique_def)
  have d: "?d2 \<in> set (decision_delegation ex_scoped)" "?d1 \<in> set (decision_delegation ex_scoped)"
    by (simp_all add: ex_scoped_def)
  have w: "root_row ex_health_vote \<in> set (dlg_table ex_scoped ex_health_poll ex_health_vote)"
    by (rule dlg_table_root)
  have l: "dlg_user_id (root_row ex_health_vote) = 1"
    by (simp add: root_row_def ex_health_vote_def)
  have n: "no_vote ex_scoped 3 (dlg_poll_id (root_row ex_health_vote))"
    "no_vote ex_scoped 2 (dlg_poll_id (root_row ex_health_vote))"
    by (simp_all add: no_vote_def root_row_def ex_health_vote_def ex_scoped_def)
  have m: "scope_matches ex_scoped ex_health_poll ?d2"
    "\<not> scope_matches ex_scoped ex_health_poll ?d1"
    "\<not> scope_matches ex_scoped ex_poll ?d1"
    by (auto simp: scope_matches_def scope_def ex_scoped_def ex_health_poll_def ex_poll_def)
  have l2: "dlg_user_id (root_row ex_health_vote) = leader_id ?d2"
    and l1: "dlg_user_id (root_row ex_health_vote) = leader_id ?d1"
    using l by simp_all
  have n2: "no_vote ex_scoped (follower_id ?d2) (dlg_poll_id (root_row ex_health_vote))"
    and n1: "no_vote ex_scoped (follower_id ?d1) (dlg_poll_id (root_row ex_health_vote))"
    using n by simp_all
  note t2 = propagation_category_scope [OF u d(1) w l2 n2]
  note t1 = propagation_category_scope [OF u d(2) w l1 n1]
  have a: "dlg_row ?d2 (root_row ex_health_vote)
        \<in> set (dlg_table ex_scoped ex_health_poll ex_health_vote)"
    using t2 m(1) by blast
  have b: "dlg_row ?d1 (root_row ex_health_vote)
        \<notin> set (dlg_table ex_scoped ex_health_poll ex_health_vote)"
    using t1 m(2) by blast
  have c: "\<not> extra_condition ex_scoped ex_poll ?d1"
    using propagation_category_scope [OF u d(2) dlg_table_root l1 n1, of ex_poll] m(3)
    by blast
  from u d w l n m(1,2) a b c show ?thesis by (intro conjI)
qed

text \<open>
  Claim C5. For any tables, cyclic or not, the recursive query ends: inspecting the
  working table two times more than there are delegations is enough, the table it
  returns is closed under the recursive term, and it selects at most as many rows for
  insertion as there are delegations.
\<close>

theorem propagation_terminates:
  "with_recursive_bounded (length (decision_delegation s) + 2) s p
      [root_row inst] [root_row inst] = Some (dlg_table s p inst)
   \<and> set (recursive_term s p (dlg_table s p inst)) \<subseteq> set (dlg_table s p inst)
   \<and> length (selected_rows s p inst) \<le> length (decision_delegation s)"
  using dlg_table_bounded dlg_table_closed length_selected_rows by blast

theorem propagation_terminates_witness:
  "with_recursive_bounded 5 (ex_cycle\<lparr>decision_vote := [ex_vote1]\<rparr>) ex_poll
      [root_row ex_vote1] [root_row ex_vote1]
     = Some (dlg_table (ex_cycle\<lparr>decision_vote := [ex_vote1]\<rparr>) ex_poll ex_vote1)
   \<and> dlg_table (ex_cycle\<lparr>decision_vote := [ex_vote1]\<rparr>) ex_poll ex_vote1
     = [\<lparr>dlg_user_id = 1, dlg_poll_id = 7, dlg_choice_id = 5, dlg_delegate_id = None\<rparr>,
        \<lparr>dlg_user_id = 3, dlg_poll_id = 7, dlg_choice_id = 5, dlg_delegate_id = Some 1\<rparr>,
        \<lparr>dlg_user_id = 2, dlg_poll_id = 7, dlg_choice_id = 5, dlg_delegate_id = Some 3\<rparr>]
   \<and> length (selected_rows (ex_cycle\<lparr>decision_vote := [ex_vote1]\<rparr>) ex_poll ex_vote1) \<le> 3"
proof -
  have l: "length (decision_delegation (ex_cycle\<lparr>decision_vote := [ex_vote1]\<rparr>)) = 3"
    by (simp add: ex_cycle_def)
  have t: "dlg_table (ex_cycle\<lparr>decision_vote := [ex_vote1]\<rparr>) ex_poll ex_vote1
     = [\<lparr>dlg_user_id = 1, dlg_poll_id = 7, dlg_choice_id = 5, dlg_delegate_id = None\<rparr>,
        \<lparr>dlg_user_id = 3, dlg_poll_id = 7, dlg_choice_id = 5, dlg_delegate_id = Some 1\<rparr>,
        \<lparr>dlg_user_id = 2, dlg_poll_id = 7, dlg_choice_id = 5, dlg_delegate_id = Some 3\<rparr>]"
    by code_simp
  show ?thesis
    using propagation_terminates [of "ex_cycle\<lparr>decision_vote := [ex_vote1]\<rparr>" ex_poll ex_vote1]
    unfolding l t by simp
qed

text \<open>On the cycle, a vote of any of the three members reaches the other two.\<close>

lemma cycle_from_each_member:
  "snd (set_vote ex_cycle ex_poll 1 (ChoiceObj ex_yes) None True)
     = ex_cycle\<lparr>decision_vote :=
         [\<lparr>user_id = 1, poll_id = 7, choice_id = 5, delegate_id = None\<rparr>,
          \<lparr>user_id = 3, poll_id = 7, choice_id = 5, delegate_id = Some 1\<rparr>,
          \<lparr>user_id = 2, poll_id = 7, choice_id = 5, delegate_id = Some 3\<rparr>]\<rparr>"
  "snd (set_vote ex_cycle ex_poll 2 (ChoiceObj ex_yes) None True)
     = ex_cycle\<lparr>decision_vote :=
         [\<lparr>user_id = 2, poll_id = 7, choice_id = 5, delegate_id = None\<rparr>,
          \<lparr>user_id = 1, poll_id = 7, choice_id = 5, delegate_id = Some 2\<rparr>,
          \<lparr>user_id = 3, poll_id = 7, choice_id = 5, delegate_id = Some 1\<rparr>]\<rparr>"
  "snd (set_vote ex_cycle ex_poll 3 (ChoiceObj ex_yes) None True)
     = ex_cycle\<lparr>decision_vote :=
         [\<lparr>user_id = 3, poll_id = 7, choice_id = 5, delegate_id = None\<rparr>,
          \<lparr>user_id = 2, poll_id = 7, choice_id = 5, delegate_id = Some 3\<rparr>,
          \<lparr>user_id = 1, poll_id = 7, choice_id = 5, delegate_id = Some 2\<rparr>]\<rparr>"
  by code_simp+

text \<open>
  Claim C4 on the diamond. \<open>UNION\<close> discards a row only when all four columns agree,
  so user 4 enters \<open>dlg\<close> twice, once with delegate 2 and once with delegate 3. The
  insertion of both rows breaks \<open>unique_together = ('user', 'poll')\<close>: the statement
  fails with \<open>IntegrityError\<close>, \<open>set_vote\<close> raises it, and no follower of user 1
  receives a vote.
\<close>

theorem diamond_follower_admitted_twice:
  "dlg_table (ex_diamond\<lparr>decision_vote := [ex_vote1]\<rparr>) ex_poll ex_vote1
     = [\<lparr>dlg_user_id = 1, dlg_poll_id = 7, dlg_choice_id = 5, dlg_delegate_id = None\<rparr>,
        \<lparr>dlg_user_id = 2, dlg_poll_id = 7, dlg_choice_id = 5, dlg_delegate_id = Some 1\<rparr>,
        \<lparr>dlg_user_id = 3, dlg_poll_id = 7, dlg_choice_id = 5, dlg_delegate_id = Some 1\<rparr>,
        \<lparr>dlg_user_id = 4, dlg_poll_id = 7, dlg_choice_id = 5, dlg_delegate_id = Some 2\<rparr>,
        \<lparr>dlg_user_id = 4, dlg_poll_id = 7, dlg_choice_id = 5, dlg_delegate_id = Some 3\<rparr>]
   \<and> propagate_vote (ex_diamond\<lparr>decision_vote := [ex_vote1]\<rparr>) ex_poll ex_vote1
     = Inl IntegrityError
   \<and> set_vote ex_diamond ex_poll 1 (ChoiceObj ex_yes) None True
     = (Inl IntegrityError, ex_diamond\<lparr>decision_vote := [ex_vote1]\<rparr>)"
  by code_simp

end
